theory Spec2Isabelle
  imports Main
begin

section \<open>SnapshotManager (src/main/generic/SnapshotManager.js)\<close>

text \<open>
  The class keeps one field, \<^verbatim>\<open>_snapshots\<close>, a JavaScript \<^verbatim>\<open>Set\<close> of snapshot
  objects. Its three methods mutate that set and the \<^verbatim>\<open>_backend\<close> field of snapshots
  that are shared with transactions, so the embedding is an explicit object heap:
  a reference is an index into a list of objects, \<^verbatim>\<open>new\<close> appends to the list, and
  every method takes the heap and returns the heap it leaves behind.
  Field names lose their leading underscore (\<open>snapshots\<close>, \<open>backend\<close>,
  \<open>snapshotManager\<close>), which an Isabelle identifier cannot start with.
\<close>

subsection \<open>Values, objects, heap\<close>

type_synonym ref = nat
type_synonym key = string
type_synonym val = nat

text \<open>
  The classes \<^verbatim>\<open>Snapshot\<close> and \<^verbatim>\<open>Transaction\<close> are used by the manager but defined
  elsewhere. Of a snapshot the manager writes \<^verbatim>\<open>_backend\<close> and passes \<^verbatim>\<open>objectStore\<close>
  and \<^verbatim>\<open>backend\<close> to the constructor; of a transaction it reads \<^verbatim>\<open>_snapshotManager\<close>.
\<close>

text \<open>
  Modelled from the spec: the fields \<open>diff\<close> of a snapshot (section 3: a mapping from key
  to pre-image, a value or a tombstone, here \<open>None\<close>), \<open>writes\<close> of a transaction
  (section 3: triples of key, new value or tombstone, original value or tombstone) and the
  object kind \<open>StoreObj\<close> (section 2: the versioned store holding the current key/value
  state), none of which SnapshotManager.js declares.
\<close>

record Snapshot =
  objectStore :: ref
  backend :: ref
  diff :: "(key \<times> val option) list"

record SnapshotManager =
  snapshots :: "ref list"

record Transaction =
  snapshotManager :: ref
  writes :: "(key \<times> val option \<times> val option) list"

datatype obj =
    SnapshotObj Snapshot
  | SnapshotManagerObj SnapshotManager
  | TransactionObj Transaction
  | StoreObj "(key \<times> val) list"

type_synonym heap = "obj list"

text \<open>What a caller may pass where a transaction is expected: any JavaScript value.\<close>

datatype jsvalue =
    JSUndefined
  | JSNull
  | JSBoolean bool
  | JSNumber int
  | JSString string
  | JSRef ref

definition deref :: "heap \<Rightarrow> ref \<Rightarrow> obj option" where
  "deref h r = (if r < length h then Some (h ! r) else None)"

text \<open>
  \<^verbatim>\<open>tx instanceof Transaction\<close>, returning the object's fields when it holds. The file
  declares no subclass of \<^verbatim>\<open>Transaction\<close>, so only transaction objects pass.
\<close>

definition instanceof_Transaction :: "heap \<Rightarrow> jsvalue \<Rightarrow> Transaction option" where
  "instanceof_Transaction h v =
     (case v of
        JSRef r \<Rightarrow> (case deref h r of Some (TransactionObj T) \<Rightarrow> Some T | _ \<Rightarrow> None)
      | _ \<Rightarrow> None)"

definition is_Snapshot :: "heap \<Rightarrow> ref \<Rightarrow> bool" where
  "is_Snapshot h r = (case deref h r of Some (SnapshotObj S) \<Rightarrow> True | _ \<Rightarrow> False)"

text \<open>The registry \<^verbatim>\<open>r._snapshots\<close> of the object at \<open>r\<close>; empty when \<open>r\<close> is no manager.\<close>

definition registry :: "heap \<Rightarrow> ref \<Rightarrow> ref list" where
  "registry h r = (case deref h r of Some (SnapshotManagerObj M) \<Rightarrow> snapshots M | _ \<Rightarrow> [])"

text \<open>The \<^verbatim>\<open>_backend\<close> of the snapshot at \<open>r\<close>.\<close>

definition backend_of :: "heap \<Rightarrow> ref \<Rightarrow> ref option" where
  "backend_of h r = (case deref h r of Some (SnapshotObj S) \<Rightarrow> Some (backend S) | _ \<Rightarrow> None)"

subsection \<open>The JavaScript Set\<close>

text \<open>
  A \<^verbatim>\<open>Set\<close> iterates in insertion order and holds a value at most once, so it is a list
  without duplicates: \<^verbatim>\<open>add\<close> appends a value that is not yet a member and does nothing
  otherwise, \<^verbatim>\<open>delete\<close> removes the value and tells whether it was a member.
\<close>

definition Set_add :: "ref \<Rightarrow> ref list \<Rightarrow> ref list" where
  "Set_add x xs = (if x \<in> set xs then xs else xs @ [x])"

definition Set_delete :: "ref \<Rightarrow> ref list \<Rightarrow> bool \<times> ref list" where
  "Set_delete x xs = (x \<in> set xs, removeAll x xs)"

subsection \<open>Errors and promises\<close>

text \<open>
  \<open>Thrown s\<close> is \<^verbatim>\<open>throw s\<close> of a string; \<open>TypeError\<close> is what the engine raises when a
  property of \<^verbatim>\<open>undefined\<close> is used or a value that is not iterable is iterated;
  \<open>CaptureFailure\<close> stands for whatever a snapshot's \<^verbatim>\<open>_apply\<close> rejects with.
\<close>

datatype error = Thrown string | TypeError | CaptureFailure string

datatype outcome = Fulfilled | Rejected error

text \<open>
  A promise is described by when and how it settles: \<open>Settled t r\<close> settles with \<open>r\<close> at
  the logical time \<open>t\<close>, counted from the call that created it; \<open>Never\<close> stays pending.
\<close>

datatype promise = Never | Settled nat outcome

text \<open>
  \<^verbatim>\<open>Promise.all\<close> of two promises: rejected as soon as one of them is rejected (the
  earlier rejection wins, the first argument on a tie), fulfilled once both are.
\<close>

fun both :: "promise \<Rightarrow> promise \<Rightarrow> promise" where
  "both (Settled t (Rejected e)) (Settled u (Rejected f)) =
     (if u < t then Settled u (Rejected f) else Settled t (Rejected e))"
| "both (Settled t (Rejected e)) q = Settled t (Rejected e)"
| "both p (Settled u (Rejected f)) = Settled u (Rejected f)"
| "both (Settled t Fulfilled) (Settled u Fulfilled) = Settled (max t u) Fulfilled"
| "both p q = Never"

fun Promise_all :: "promise list \<Rightarrow> promise" where
  "Promise_all [] = Settled 0 Fulfilled"
| "Promise_all (p # ps) = both p (Promise_all ps)"

subsection \<open>createSnapshot and abortSnapshot\<close>

text \<open>
  \<^verbatim>\<open>const snapshot = new Snapshot(objectStore, backend); this._snapshots.add(snapshot);
  return snapshot;\<close>
\<close>

text \<open>
  Modelled from the spec: the constructor of \<^verbatim>\<open>Snapshot\<close>, which is not in
  SnapshotManager.js; section 4.2 has it build a snapshot with an empty diff and the
  given backend.
\<close>

definition createSnapshot :: "ref \<Rightarrow> ref \<Rightarrow> ref \<Rightarrow> heap \<Rightarrow> error + (ref \<times> heap)" where
  "createSnapshot this objStore bknd h =
     (let snapshot = length h;
          h1 = h @ [SnapshotObj \<lparr>objectStore = objStore, backend = bknd, diff = []\<rparr>]
      in case deref h1 this of
           Some (SnapshotManagerObj M) \<Rightarrow>
             Inr (snapshot,
                  h1[this := SnapshotManagerObj (M\<lparr>snapshots := Set_add snapshot (snapshots M)\<rparr>)])
         | _ \<Rightarrow> Inl TypeError)"

text \<open>\<^verbatim>\<open>return this._snapshots.delete(snapshot);\<close>\<close>

definition abortSnapshot :: "ref \<Rightarrow> ref \<Rightarrow> heap \<Rightarrow> error + (bool \<times> heap)" where
  "abortSnapshot this snapshot h =
     (case deref h this of
        Some (SnapshotManagerObj M) \<Rightarrow>
          (case Set_delete snapshot (snapshots M) of
             (was, rest) \<Rightarrow> Inr (was, h[this := SnapshotManagerObj (M\<lparr>snapshots := rest\<rparr>)]))
      | _ \<Rightarrow> Inl TypeError)"

subsection \<open>applyTx\<close>

text \<open>
  \<^verbatim>\<open>Snapshot._apply\<close> is not part of SnapshotManager.js, so it is a parameter of the
  model: given the snapshot's identity, the transaction and the snapshot's fields it
  yields the promise it returns and the fields it leaves.
\<close>

type_synonym apply_fn = "ref \<Rightarrow> Transaction \<Rightarrow> Snapshot \<Rightarrow> promise \<times> Snapshot"

text \<open>
  \<^verbatim>\<open>for (const snapshot of this._snapshots) { applications.push(snapshot._apply(tx)); }\<close>

  The result lists every invocation of \<^verbatim>\<open>_apply\<close> with the promise it returned, in
  order. A member that has no \<^verbatim>\<open>_apply\<close> stops the loop with a TypeError.
\<close>

fun apply_loop ::
  "apply_fn \<Rightarrow> Transaction \<Rightarrow> ref list \<Rightarrow> heap \<Rightarrow> error option \<times> (ref \<times> promise) list \<times> heap" where
  "apply_loop ap T [] h = (None, [], h)"
| "apply_loop ap T (s # ss) h =
     (case deref h s of
        Some (SnapshotObj S) \<Rightarrow>
          (case ap s T S of
             (p, S') \<Rightarrow>
               (case apply_loop ap T ss (h[s := SnapshotObj S']) of
                  (e, calls, h') \<Rightarrow> (e, (s, p) # calls, h')))
      | _ \<Rightarrow> (Some TypeError, [], h))"

text \<open>\<^verbatim>\<open>this._snapshots.add(snapshot)\<close>\<close>

definition snapshots_add :: "ref \<Rightarrow> ref \<Rightarrow> heap \<Rightarrow> error + heap" where
  "snapshots_add this s h =
     (case deref h this of
        Some (SnapshotManagerObj M) \<Rightarrow>
          Inr (h[this := SnapshotManagerObj (M\<lparr>snapshots := Set_add s (snapshots M)\<rparr>)])
      | _ \<Rightarrow> Inl TypeError)"

text \<open>\<^verbatim>\<open>snapshot._backend = this\<close>: on a snapshot the field is written; on an object of
  another class the assignment adds a property that none of the modelled fields reads;
  on a value that is no object it raises (class bodies are strict code).\<close>

definition set_backend :: "ref \<Rightarrow> ref \<Rightarrow> heap \<Rightarrow> error + heap" where
  "set_backend s this h =
     (case deref h s of
        None \<Rightarrow> Inl TypeError
      | Some (SnapshotObj S) \<Rightarrow> Inr (h[s := SnapshotObj (S\<lparr>backend := this\<rparr>)])
      | Some other \<Rightarrow> Inr h)"

text \<open>
  \<^verbatim>\<open>for (const snapshot of tx._snapshotManager) { snapshot._backend = this;
  this._snapshots.add(snapshot); }\<close>

  The members of the transaction's set are fixed when the loop starts: the body adds to
  \<^verbatim>\<open>this._snapshots\<close> only, and where that is the very set being iterated every value
  added is a member already, so the set does not change.
\<close>

fun adopt_loop :: "ref \<Rightarrow> ref list \<Rightarrow> heap \<Rightarrow> error option \<times> heap" where
  "adopt_loop this [] h = (None, h)"
| "adopt_loop this (s # ss) h =
     (case set_backend s this h of
        Inl e \<Rightarrow> (Some e, h)
      | Inr h1 \<Rightarrow>
          (case snapshots_add this s h1 of
             Inl e \<Rightarrow> (Some e, h1)
           | Inr h2 \<Rightarrow> adopt_loop this ss h2))"

text \<open>
  \<^verbatim>\<open>async applyTx(tx)\<close>. The method is asynchronous, so whatever it throws rejects the
  promise it returns, at once. The result is that promise, the invocations of
  \<^verbatim>\<open>_apply\<close> made, and the heap.
\<close>

definition applyTx ::
  "apply_fn \<Rightarrow> ref \<Rightarrow> jsvalue \<Rightarrow> heap \<Rightarrow> promise \<times> (ref \<times> promise) list \<times> heap" where
  "applyTx ap this tx h =
     (case instanceof_Transaction h tx of
        None \<Rightarrow> (Settled 0 (Rejected (Thrown ''Can only apply transactions'')), [], h)
      | Some T \<Rightarrow>
          (case deref h this of
             Some (SnapshotManagerObj M) \<Rightarrow>
               (case apply_loop ap T (snapshots M) h of
                  (Some e, calls, h1) \<Rightarrow> (Settled 0 (Rejected e), calls, h1)
                | (None, calls, h1) \<Rightarrow>
                    (case deref h1 (snapshotManager T) of
                       Some (SnapshotManagerObj N) \<Rightarrow>
                         (case adopt_loop this (snapshots N) h1 of
                            (Some e, h2) \<Rightarrow> (Settled 0 (Rejected e), calls, h2)
                          | (None, h2) \<Rightarrow> (Promise_all (map snd calls), calls, h2))
                     | _ \<Rightarrow> (Settled 0 (Rejected TypeError), calls, h1)))
           | _ \<Rightarrow> (Settled 0 (Rejected TypeError), [], h)))"

subsection \<open>The commit around applyTx\<close>

text \<open>
  Modelled from the spec: the store-mutation half of a commit, which is done by the caller
  of \<^verbatim>\<open>applyTx\<close> and is not in SnapshotManager.js. Sections 2 and 4.2 have the store
  apply the transaction's writes (a put for a new value, a remove for a tombstone) only
  after the captures, and section 7 has a capture failure fail the whole commit: the
  caller awaits the promise of \<^verbatim>\<open>applyTx\<close> and writes to the store once it is
  fulfilled.
\<close>

definition put_remove :: "key \<times> val option \<times> val option \<Rightarrow> (key \<times> val) list \<Rightarrow> (key \<times> val) list" where
  "put_remove w kv =
     (case w of
        (k, Some v, orig) \<Rightarrow> (k, v) # filter (\<lambda>e. fst e \<noteq> k) kv
      | (k, None, orig) \<Rightarrow> filter (\<lambda>e. fst e \<noteq> k) kv)"

definition commitTx ::
  "apply_fn \<Rightarrow> ref \<Rightarrow> ref \<Rightarrow> jsvalue \<Rightarrow> heap \<Rightarrow> promise \<times> (ref \<times> promise) list \<times> heap" where
  "commitTx ap this store tx h =
     (case applyTx ap this tx h of
        (Settled t Fulfilled, calls, h1) \<Rightarrow>
          (case (instanceof_Transaction h1 tx, deref h1 store) of
             (Some T, Some (StoreObj kv)) \<Rightarrow>
               (Settled t Fulfilled, calls, h1[store := StoreObj (fold put_remove (writes T) kv)])
           | _ \<Rightarrow> (Settled t Fulfilled, calls, h1))
      | (p, calls, h1) \<Rightarrow> (p, calls, h1))"

subsection \<open>Well-formed heaps\<close>

text \<open>The classes of the objects; no method of the manager changes the class of an object.\<close>

datatype kind = KSnapshot | KManager | KTransaction | KStore

fun kind_of :: "obj \<Rightarrow> kind" where
  "kind_of (SnapshotObj S) = KSnapshot"
| "kind_of (SnapshotManagerObj M) = KManager"
| "kind_of (TransactionObj T) = KTransaction"
| "kind_of (StoreObj kv) = KStore"

text \<open>
  \<open>registry_ok h r\<close>: the object at \<open>r\<close> is a SnapshotManager and every member of its set
  is a snapshot of the heap, which is what \<^verbatim>\<open>createSnapshot\<close> and adoption put there.
\<close>

definition registry_ok :: "heap \<Rightarrow> ref \<Rightarrow> bool" where
  "registry_ok h r =
     (case deref h r of
        Some (SnapshotManagerObj M) \<Rightarrow> list_all (is_Snapshot h) (snapshots M)
      | _ \<Rightarrow> False)"

subsection \<open>A capture and a heap to run the methods on\<close>

text \<open>
  Modelled from the spec: \<^verbatim>\<open>Snapshot._apply\<close> (section 4.1), which is not in
  SnapshotManager.js: every key the transaction mutates and the diff does not hold yet
  gets the transaction's original value as its pre-image; keys already in the diff are
  left alone. \<open>io s\<close> tells how the reads under the capture of snapshot \<open>s\<close> end
  (section 7: a capture fails when an underlying read fails).
\<close>

definition capture ::
  "(key \<times> val option \<times> val option) list \<Rightarrow> (key \<times> val option) list \<Rightarrow> (key \<times> val option) list" where
  "capture ws d =
     fold (\<lambda>w d. if fst w \<in> set (map fst d) then d else d @ [(fst w, snd (snd w))]) ws d"

definition Snapshot_apply :: "(ref \<Rightarrow> promise) \<Rightarrow> apply_fn" where
  "Snapshot_apply io s T S =
     (case io s of
        Settled t Fulfilled \<Rightarrow> (Settled t Fulfilled, S\<lparr>diff := capture (writes T) (diff S)\<rparr>)
      | p \<Rightarrow> (p, S))"

text \<open>
  A store at 3, whose manager at 0 holds the snapshot 4 created with the store as its
  backend, and a transaction at 2, whose own manager at 1 holds the snapshot 5.
\<close>

definition heap0 :: heap where
  "heap0 =
     [SnapshotManagerObj \<lparr>snapshots = [4]\<rparr>,
      SnapshotManagerObj \<lparr>snapshots = [5]\<rparr>,
      TransactionObj \<lparr>snapshotManager = 1, writes = [(''A'', Some 9, Some 1)]\<rparr>,
      StoreObj [(''A'', 1), (''B'', 2)],
      SnapshotObj \<lparr>objectStore = 3, backend = 3, diff = []\<rparr>,
      SnapshotObj \<lparr>objectStore = 3, backend = 2, diff = []\<rparr>]"

definition io_ok :: "ref \<Rightarrow> promise" where
  "io_ok s = Settled 1 Fulfilled"

definition io_fail4 :: "ref \<Rightarrow> promise" where
  "io_fail4 s = (if s = 4 then Settled 2 (Rejected (CaptureFailure ''read failed'')) else Settled 1 Fulfilled)"

definition io_slow5 :: "ref \<Rightarrow> promise" where
  "io_slow5 s = (if s = 5 then Settled 3 Fulfilled else Settled 1 Fulfilled)"

text \<open>The capture of 4 fails early while that of 5 is still running.\<close>

definition io_early4 :: "ref \<Rightarrow> promise" where
  "io_early4 s = (if s = 4 then Settled 1 (Rejected (CaptureFailure ''read failed'')) else Settled 3 Fulfilled)"

text \<open>Both captures fail, that of 5 first.\<close>

definition io_fail_both :: "ref \<Rightarrow> promise" where
  "io_fail_both s =
     (if s = 4 then Settled 2 (Rejected (CaptureFailure ''read failed''))
      else Settled 1 (Rejected (CaptureFailure ''disk full'')))"

text \<open>The heap after the transaction at 2 has been applied to the manager at 0.\<close>

definition heap1 :: heap where
  "heap1 = snd (snd (applyTx (Snapshot_apply io_ok) 0 (JSRef 2) heap0))"

text \<open>
  A nested commit: the parent transaction at 1 keeps its manager, at 0, in its field
  \<^verbatim>\<open>_snapshotManager\<close>; the snapshot 4 of that manager was created with the parent
  transaction as its backend. The child transaction at 3 keeps its manager at 2, which
  holds the snapshot 5.
\<close>

definition heap2 :: heap where
  "heap2 =
     [SnapshotManagerObj \<lparr>snapshots = [4]\<rparr>,
      TransactionObj \<lparr>snapshotManager = 0, writes = []\<rparr>,
      SnapshotManagerObj \<lparr>snapshots = [5]\<rparr>,
      TransactionObj \<lparr>snapshotManager = 2, writes = [(''A'', Some 9, Some 1)]\<rparr>,
      SnapshotObj \<lparr>objectStore = 6, backend = 1, diff = []\<rparr>,
      SnapshotObj \<lparr>objectStore = 6, backend = 3, diff = []\<rparr>,
      StoreObj [(''A'', 1), (''B'', 2)]]"

section \<open>Properties\<close>

subsection \<open>The heap\<close>

lemma deref_update:
  "deref (h[r := x]) r' = (if r' = r \<and> r < length h then Some x else deref h r')"
  by (simp add: deref_def)

lemma deref_Some_length: "deref h r = Some x \<Longrightarrow> r < length h"
  by (simp add: deref_def split: if_splits)

lemma kinds_update:
  "deref h r = Some y \<Longrightarrow> kind_of y = kind_of x \<Longrightarrow> map kind_of (h[r := x]) = map kind_of h"
  by (simp add: deref_def map_update list_update_same_conv split: if_splits)

lemma kinds_deref:
  "map kind_of h' = map kind_of h \<Longrightarrow>
     map_option kind_of (deref h' r) = map_option kind_of (deref h r)"
  by (metis deref_def length_map nth_map option.simps(8,9))

lemma is_Snapshot_iff: "is_Snapshot h r \<longleftrightarrow> (\<exists>S. deref h r = Some (SnapshotObj S))"
  by (simp add: is_Snapshot_def split: option.splits obj.splits)

lemma is_Snapshot_kind: "is_Snapshot h r \<longleftrightarrow> map_option kind_of (deref h r) = Some KSnapshot"
  by (cases "deref h r"; simp add: is_Snapshot_def split: obj.splits)

lemma is_Snapshot_kinds:
  "map kind_of h' = map kind_of h \<Longrightarrow> is_Snapshot h' r = is_Snapshot h r"
  using kinds_deref [of h' h r] by (simp add: is_Snapshot_kind)

subsection \<open>The loop over the manager's own snapshots\<close>

lemma apply_loop_Cons_cases:
  assumes "apply_loop ap T (s # ss) h = (e, calls, h')"
  obtains (typeerror) "\<not> is_Snapshot h s" "e = Some TypeError" "calls = []" "h' = h"
  | (step) S p S' c1 where "deref h s = Some (SnapshotObj S)" "ap s T S = (p, S')"
      "apply_loop ap T ss (h[s := SnapshotObj S']) = (e, c1, h')" "calls = (s, p) # c1"
proof (cases "is_Snapshot h s")
  case False
  then have "apply_loop ap T (s # ss) h = (Some TypeError, [], h)"
    by (simp add: is_Snapshot_def split: option.splits obj.splits)
  with assms have "e = Some TypeError" "calls = []" "h' = h" by simp_all
  with False show ?thesis by (rule typeerror)
next
  case True
  then obtain S where S: "deref h s = Some (SnapshotObj S)" by (auto simp: is_Snapshot_iff)
  obtain p S' where ap: "ap s T S = (p, S')" by (cases "ap s T S")
  obtain e1 c1 h1 where rec: "apply_loop ap T ss (h[s := SnapshotObj S']) = (e1, c1, h1)"
    by (cases "apply_loop ap T ss (h[s := SnapshotObj S'])")
  have "apply_loop ap T (s # ss) h = (e1, (s, p) # c1, h1)"
    by (simp add: S ap rec)
  with assms have eq: "e1 = e" "calls = (s, p) # c1" "h1 = h'" by simp_all
  show ?thesis
    by (rule step [OF S ap _ eq(2)]) (simp add: rec eq)
qed

lemma apply_loop_kinds:
  "apply_loop ap T ss h = (e, calls, h') \<Longrightarrow> map kind_of h' = map kind_of h"
proof (induction ss arbitrary: h e calls h')
  case Nil
  then show ?case by simp
next
  case (Cons s ss)
  from Cons.prems show ?case
  proof (cases rule: apply_loop_Cons_cases)
    case typeerror
    then show ?thesis by simp
  next
    case (step S p S' c1)
    from Cons.IH [OF step(3)] step(1) show ?thesis by (simp add: kinds_update)
  qed
qed

lemma apply_loop_frame:
  "apply_loop ap T ss h = (e, calls, h') \<Longrightarrow> deref h r = Some x \<Longrightarrow> kind_of x \<noteq> KSnapshot
     \<Longrightarrow> deref h' r = Some x"
proof (induction ss arbitrary: h e calls h')
  case Nil
  then show ?case by simp
next
  case (Cons s ss)
  from Cons.prems(1) show ?case
  proof (cases rule: apply_loop_Cons_cases)
    case typeerror
    with Cons.prems show ?thesis by simp
  next
    case (step S p S' c1)
    from step(1) Cons.prems(2,3) have "r \<noteq> s" by auto
    then have "deref (h[s := SnapshotObj S']) r = Some x"
      using Cons.prems(2) by (simp add: deref_update)
    from Cons.IH [OF step(3) this Cons.prems(3)] show ?thesis .
  qed
qed

lemma apply_loop_calls:
  "\<forall>s\<in>set ss. is_Snapshot h s \<Longrightarrow> apply_loop ap T ss h = (e, calls, h')
     \<Longrightarrow> e = None \<and> map fst calls = ss"
proof (induction ss arbitrary: h e calls h')
  case Nil
  then show ?case by simp
next
  case (Cons s ss)
  from Cons.prems(2) show ?case
  proof (cases rule: apply_loop_Cons_cases)
    case typeerror
    with Cons.prems(1) show ?thesis by simp
  next
    case (step S p S' c1)
    have "map kind_of (h[s := SnapshotObj S']) = map kind_of h"
      using step(1) by (simp add: kinds_update)
    then have "\<forall>x\<in>set ss. is_Snapshot (h[s := SnapshotObj S']) x"
      using Cons.prems(1) is_Snapshot_kinds [of "h[s := SnapshotObj S']" h] by simp
    from Cons.IH [OF this step(3)] step(4) show ?thesis by simp
  qed
qed

lemma apply_loop_calls_subset:
  "apply_loop ap T ss h = (e, calls, h') \<Longrightarrow> set (map fst calls) \<subseteq> set ss"
proof (induction ss arbitrary: h e calls h')
  case Nil
  then show ?case by simp
next
  case (Cons s ss)
  from Cons.prems(1) show ?case
  proof (cases rule: apply_loop_Cons_cases)
    case typeerror
    then show ?thesis by simp
  next
    case (step S p S' c1)
    with Cons.IH [OF step(3)] show ?thesis by auto
  qed
qed

text \<open>
  In a set every snapshot is visited once, so each invocation sees the snapshot as it
  was before the loop, and the promise logged for it is the one \<^verbatim>\<open>_apply\<close> returned.
\<close>

lemma apply_loop_promises:
  "distinct ss \<Longrightarrow> apply_loop ap T ss h = (e, calls, h') \<Longrightarrow> c \<in> set calls \<Longrightarrow>
     \<exists>S. deref h (fst c) = Some (SnapshotObj S) \<and> snd c = fst (ap (fst c) T S)"
proof (induction ss arbitrary: h e calls h')
  case Nil
  then show ?case by simp
next
  case (Cons s ss)
  from Cons.prems(2) show ?case
  proof (cases rule: apply_loop_Cons_cases)
    case typeerror
    with Cons.prems(3) show ?thesis by simp
  next
    case (step S p S' c1)
    show ?thesis
    proof (cases "c = (s, p)")
      case True
      with step(1,2) show ?thesis by simp
    next
      case False
      with Cons.prems(3) step(4) have c: "c \<in> set c1" by simp
      from Cons.prems(1) have d: "distinct ss" and s: "s \<notin> set ss" by simp_all
      from Cons.IH [OF d step(3) c] obtain S0 where
        S0: "deref (h[s := SnapshotObj S']) (fst c) = Some (SnapshotObj S0)"
          "snd c = fst (ap (fst c) T S0)" by blast
      from apply_loop_calls_subset [OF step(3)] c have "fst c \<in> set ss" by auto
      with s have "fst c \<noteq> s" by auto
      with S0(1) have "deref h (fst c) = Some (SnapshotObj S0)" by (simp add: deref_update)
      with S0(2) show ?thesis by blast
    qed
  qed
qed

subsection \<open>The adoption loop\<close>

lemma set_backend_cases:
  assumes "set_backend s this h = r"
  obtains (undefined) "deref h s = None" "r = Inl TypeError"
  | (snapshot) S where "deref h s = Some (SnapshotObj S)"
      "r = Inr (h[s := SnapshotObj (S\<lparr>backend := this\<rparr>)])"
  | (other) x where "deref h s = Some x" "kind_of x \<noteq> KSnapshot" "r = Inr h"
proof (cases "deref h s")
  case None
  with assms undefined show ?thesis by (simp add: set_backend_def)
next
  case (Some x)
  show ?thesis
  proof (cases x)
    case (SnapshotObj S)
    with Some assms have "r = Inr (h[s := SnapshotObj (S\<lparr>backend := this\<rparr>)])"
      by (simp add: set_backend_def)
    with Some SnapshotObj show ?thesis by (simp add: snapshot)
  next
    case (SnapshotManagerObj M)
    with Some assms have "r = Inr h" by (simp add: set_backend_def)
    with Some SnapshotManagerObj show ?thesis using other [of x] by simp
  next
    case (TransactionObj T)
    with Some assms have "r = Inr h" by (simp add: set_backend_def)
    with Some TransactionObj show ?thesis using other [of x] by simp
  next
    case (StoreObj kv)
    with Some assms have "r = Inr h" by (simp add: set_backend_def)
    with Some StoreObj show ?thesis using other [of x] by simp
  qed
qed

lemma snapshots_add_cases:
  assumes "snapshots_add this s h = r"
  obtains (manager) M where "deref h this = Some (SnapshotManagerObj M)"
      "r = Inr (h[this := SnapshotManagerObj (M\<lparr>snapshots := Set_add s (snapshots M)\<rparr>)])"
  | (typeerror) "registry h this = []" "r = Inl TypeError"
  using assms
  by (auto simp: snapshots_add_def registry_def split: option.splits obj.splits)

lemma set_backend_props:
  assumes sb: "set_backend s this h = Inr h1"
  shows "map kind_of h1 = map kind_of h"
    and "r \<noteq> s \<Longrightarrow> deref h1 r = deref h r"
    and "deref h r = Some x \<Longrightarrow> kind_of x \<noteq> KSnapshot \<Longrightarrow> deref h1 r = Some x"
    and "deref h s = Some (SnapshotObj S) \<Longrightarrow> deref h1 s = Some (SnapshotObj (S\<lparr>backend := this\<rparr>))"
proof -
  have "map kind_of h1 = map kind_of h
      \<and> (r \<noteq> s \<longrightarrow> deref h1 r = deref h r)
      \<and> (deref h r = Some x \<longrightarrow> kind_of x \<noteq> KSnapshot \<longrightarrow> deref h1 r = Some x)
      \<and> (deref h s = Some (SnapshotObj S) \<longrightarrow> deref h1 s = Some (SnapshotObj (S\<lparr>backend := this\<rparr>)))"
    using sb
  proof (cases rule: set_backend_cases)
    case undefined
    then show ?thesis by simp
  next
    case (snapshot S0)
    then have eq: "h1 = h[s := SnapshotObj (S0\<lparr>backend := this\<rparr>)]" by simp
    show ?thesis
      using snapshot(1) deref_Some_length [OF snapshot(1)]
      by (auto simp: eq deref_update kinds_update)
  next
    case (other y)
    then show ?thesis by auto
  qed
  then show "map kind_of h1 = map kind_of h"
    and "r \<noteq> s \<Longrightarrow> deref h1 r = deref h r"
    and "deref h r = Some x \<Longrightarrow> kind_of x \<noteq> KSnapshot \<Longrightarrow> deref h1 r = Some x"
    and "deref h s = Some (SnapshotObj S) \<Longrightarrow> deref h1 s = Some (SnapshotObj (S\<lparr>backend := this\<rparr>))"
    by blast+
qed

text \<open>One turn of the adoption loop that does not raise.\<close>

lemma adopt_step:
  assumes sb: "set_backend s this h = Inr h1" and sa: "snapshots_add this s h1 = Inr h2"
  shows "map kind_of h2 = map kind_of h"
    and "\<exists>M. deref h this = Some (SnapshotManagerObj M)"
    and "registry h2 this = Set_add s (registry h this)"
    and "r \<noteq> s \<Longrightarrow> r \<noteq> this \<Longrightarrow> deref h2 r = deref h r"
    and "deref h r = Some x \<Longrightarrow> kind_of x \<noteq> KSnapshot \<Longrightarrow> r \<noteq> this \<Longrightarrow> deref h2 r = Some x"
    and "deref h s = Some (SnapshotObj S) \<Longrightarrow> deref h2 s = Some (SnapshotObj (S\<lparr>backend := this\<rparr>))"
proof -
  from sa obtain M where M: "deref h1 this = Some (SnapshotManagerObj M)"
    and h2: "h2 = h1[this := SnapshotManagerObj (M\<lparr>snapshots := Set_add s (snapshots M)\<rparr>)]"
    by (cases rule: snapshots_add_cases) auto
  note sbp = set_backend_props [OF sb]
  have Mh: "deref h this = Some (SnapshotManagerObj M)"
  proof (cases "this = s")
    case True
    from kinds_deref [OF sbp(1), of this] M obtain y where y: "deref h this = Some y"
      "kind_of y = KManager" by (cases "deref h this") auto
    then have "deref h1 this = Some y" using sbp(3) [of this y] by simp
    with M y show ?thesis by simp
  next
    case False
    with sbp(2) [of this] M show ?thesis by simp
  qed
  show "map kind_of h2 = map kind_of h"
    using sbp(1) M by (simp add: h2 kinds_update)
  show "\<exists>M. deref h this = Some (SnapshotManagerObj M)" using Mh by blast
  show "registry h2 this = Set_add s (registry h this)"
    using M Mh deref_Some_length [OF M] by (simp add: h2 registry_def deref_update)
  show "r \<noteq> s \<Longrightarrow> r \<noteq> this \<Longrightarrow> deref h2 r = deref h r"
    using sbp(2) [of r] by (simp add: h2 deref_update)
  show "deref h r = Some x \<Longrightarrow> kind_of x \<noteq> KSnapshot \<Longrightarrow> r \<noteq> this \<Longrightarrow> deref h2 r = Some x"
    using sbp(3) [of r x] by (simp add: h2 deref_update)
  show "deref h s = Some (SnapshotObj S) \<Longrightarrow> deref h2 s = Some (SnapshotObj (S\<lparr>backend := this\<rparr>))"
    using sbp(4) [of S] Mh by (auto simp: h2 deref_update)
qed

lemma adopt_loop_Cons_cases:
  assumes "adopt_loop this (s # ss) h = (e, h')"
  obtains (undefined) "deref h s = None" "e = Some TypeError" "h' = h"
  | (nomanager) h1 where "set_backend s this h = Inr h1" "snapshots_add this s h1 = Inl TypeError"
      "e = Some TypeError" "h' = h1"
  | (step) h1 h2 where "set_backend s this h = Inr h1" "snapshots_add this s h1 = Inr h2"
      "adopt_loop this ss h2 = (e, h')"
proof (cases "set_backend s this h")
  case (Inl e0)
  then have 1: "deref h s = None" and "e0 = TypeError"
    by (cases rule: set_backend_cases, simp_all)+
  with assms Inl have "e = Some TypeError" "h' = h" by simp_all
  with 1 show ?thesis by (rule undefined)
next
  case (Inr h1)
  note sb = this
  show ?thesis
  proof (cases "snapshots_add this s h1")
    case (Inl e0)
    then have "e0 = TypeError"
      by (cases rule: snapshots_add_cases) simp_all
    with Inl have 2: "snapshots_add this s h1 = Inl TypeError" by simp
    with assms sb have "e = Some TypeError" "h' = h1" by simp_all
    with sb 2 show ?thesis by (rule nomanager)
  next
    case (Inr h2)
    with assms sb have "adopt_loop this ss h2 = (e, h')" by simp
    with sb Inr show ?thesis by (rule step)
  qed
qed

lemma adopt_loop_kinds:
  "adopt_loop this ss h = (e, h') \<Longrightarrow> map kind_of h' = map kind_of h"
proof (induction ss arbitrary: h e h')
  case Nil
  then show ?case by simp
next
  case (Cons s ss)
  from Cons.prems show ?case
  proof (cases rule: adopt_loop_Cons_cases)
    case undefined
    then show ?thesis by simp
  next
    case (nomanager h1)
    then show ?thesis by (simp add: set_backend_props(1))
  next
    case (step h1 h2)
    from Cons.IH [OF step(3)] adopt_step(1) [OF step(1,2)] show ?thesis by simp
  qed
qed

lemma adopt_loop_frame:
  "adopt_loop this ss h = (e, h') \<Longrightarrow> deref h r = Some x \<Longrightarrow> kind_of x \<noteq> KSnapshot
     \<Longrightarrow> r \<noteq> this \<Longrightarrow> deref h' r = Some x"
proof (induction ss arbitrary: h e h')
  case Nil
  then show ?case by simp
next
  case (Cons s ss)
  from Cons.prems(1) show ?case
  proof (cases rule: adopt_loop_Cons_cases)
    case undefined
    with Cons.prems show ?thesis by simp
  next
    case (nomanager h1)
    with Cons.prems show ?thesis by (simp add: set_backend_props(3))
  next
    case (step h1 h2)
    from adopt_step(5) [OF step(1,2) Cons.prems(2,3,4)] have "deref h2 r = Some x" .
    from Cons.IH [OF step(3) this Cons.prems(3,4)] show ?thesis .
  qed
qed

lemma adopt_loop_frame_notin:
  "adopt_loop this ss h = (e, h') \<Longrightarrow> r \<notin> set ss \<Longrightarrow> r \<noteq> this \<Longrightarrow> deref h' r = deref h r"
proof (induction ss arbitrary: h e h')
  case Nil
  then show ?case by simp
next
  case (Cons s ss)
  from Cons.prems(2) have rs: "r \<noteq> s" "r \<notin> set ss" by auto
  from Cons.prems(1) show ?case
  proof (cases rule: adopt_loop_Cons_cases)
    case undefined
    then show ?thesis by simp
  next
    case (nomanager h1)
    with rs show ?thesis by (simp add: set_backend_props(2))
  next
    case (step h1 h2)
    from adopt_step(4) [OF step(1,2) rs(1) Cons.prems(3)] have "deref h2 r = deref h r" .
    with Cons.IH [OF step(3) rs(2) Cons.prems(3)] show ?thesis by simp
  qed
qed

lemma set_fold_Set_add: "set (fold Set_add ss xs) = set xs \<union> set ss"
  by (induction ss arbitrary: xs) (auto simp: Set_add_def)

lemma distinct_fold_Set_add: "distinct xs \<Longrightarrow> distinct (fold Set_add ss xs)"
  by (induction ss arbitrary: xs) (auto simp: Set_add_def)

lemma fold_Set_add_members: "set ss \<subseteq> set xs \<Longrightarrow> fold Set_add ss xs = xs"
  by (induction ss arbitrary: xs) (auto simp: Set_add_def)

text \<open>What a run of the adoption loop that does not raise leaves behind.\<close>

lemma adopt_loop_registry:
  "adopt_loop this ss h = (None, h') \<Longrightarrow> registry h' this = fold Set_add ss (registry h this)"
proof (induction ss arbitrary: h h')
  case Nil
  then show ?case by simp
next
  case (Cons s ss)
  from Cons.prems show ?case
  proof (cases rule: adopt_loop_Cons_cases)
    case (step h1 h2)
    from Cons.IH [OF step(3)] adopt_step(3) [OF step(1,2)] show ?thesis by simp
  qed simp_all
qed

lemma adopt_loop_backend:
  "adopt_loop this ss h = (None, h') \<Longrightarrow> x \<in> set ss \<Longrightarrow> deref h x = Some (SnapshotObj S)
     \<Longrightarrow> deref h' x = Some (SnapshotObj (S\<lparr>backend := this\<rparr>))"
proof (induction ss arbitrary: h h' S)
  case Nil
  then show ?case by simp
next
  case (Cons s ss)
  from Cons.prems(1) show ?case
  proof (cases rule: adopt_loop_Cons_cases)
    case (step h1 h2)
    note st = adopt_step [OF step(1,2)]
    from st(2) Cons.prems(3) have xthis: "x \<noteq> this" by auto
    show ?thesis
    proof (cases "x \<in> set ss")
      case True
      show ?thesis
      proof (cases "x = s")
        case True
        with st(6) Cons.prems(3) have "deref h2 x = Some (SnapshotObj (S\<lparr>backend := this\<rparr>))"
          by simp
        from Cons.IH [OF step(3) \<open>x \<in> set ss\<close> this] show ?thesis by simp
      next
        case False
        with st(4) [of x] xthis Cons.prems(3) have "deref h2 x = Some (SnapshotObj S)" by simp
        from Cons.IH [OF step(3) \<open>x \<in> set ss\<close> this] show ?thesis .
      qed
    next
      case False
      with Cons.prems(2) have "x = s" by simp
      with st(6) Cons.prems(3) have "deref h2 x = Some (SnapshotObj (S\<lparr>backend := this\<rparr>))"
        by simp
      with adopt_loop_frame_notin [OF step(3) False xthis] show ?thesis by simp
    qed
  qed simp_all
qed

lemma adopt_loop_succeeds:
  "\<exists>M. deref h this = Some (SnapshotManagerObj M) \<Longrightarrow> \<forall>s\<in>set ss. is_Snapshot h s
     \<Longrightarrow> \<exists>h'. adopt_loop this ss h = (None, h')"
proof (induction ss arbitrary: h)
  case Nil
  then show ?case by simp
next
  case (Cons s ss)
  from Cons.prems(1) obtain M where M: "deref h this = Some (SnapshotManagerObj M)" by blast
  from Cons.prems(2) obtain S where S: "deref h s = Some (SnapshotObj S)"
    by (auto simp: is_Snapshot_iff)
  have sb: "set_backend s this h = Inr (h[s := SnapshotObj (S\<lparr>backend := this\<rparr>)])"
    (is "_ = Inr ?h1") by (simp add: set_backend_def S)
  from S M have "s \<noteq> this" by auto
  then have M1: "deref ?h1 this = Some (SnapshotManagerObj M)"
    using M by (simp add: deref_update)
  then have sa: "snapshots_add this s ?h1 =
      Inr (?h1[this := SnapshotManagerObj (M\<lparr>snapshots := Set_add s (snapshots M)\<rparr>)])"
    (is "_ = Inr ?h2") by (simp add: snapshots_add_def)
  note st = adopt_step [OF sb sa]
  have "\<exists>M. deref ?h2 this = Some (SnapshotManagerObj M)"
    using deref_Some_length [OF M1] by (simp add: deref_update)
  moreover have "\<forall>x\<in>set ss. is_Snapshot ?h2 x"
    using Cons.prems(2) is_Snapshot_kinds [OF st(1)] by simp
  ultimately obtain h' where "adopt_loop this ss ?h2 = (None, h')"
    using Cons.IH by blast
  then show ?case by (simp add: sb sa)
qed

subsection \<open>Promise.all\<close>

lemma both_Fulfilled:
  "both p q = Settled t Fulfilled \<Longrightarrow>
     (\<exists>u\<le>t. p = Settled u Fulfilled) \<and> (\<exists>u\<le>t. q = Settled u Fulfilled)"
  by (cases "(p, q)" rule: both.cases) (auto split: if_splits)

lemma Promise_all_Fulfilled:
  "Promise_all ps = Settled t Fulfilled \<Longrightarrow> p \<in> set ps \<Longrightarrow> \<exists>u\<le>t. p = Settled u Fulfilled"
proof (induction ps arbitrary: t)
  case Nil
  then show ?case by simp
next
  case (Cons q ps)
  from Cons.prems(1) have b: "both q (Promise_all ps) = Settled t Fulfilled" by simp
  from both_Fulfilled [OF b] obtain u where u: "u \<le> t" "Promise_all ps = Settled u Fulfilled"
    and q: "\<exists>v\<le>t. q = Settled v Fulfilled" by blast
  show ?case
  proof (cases "p = q")
    case True
    with q show ?thesis by simp
  next
    case False
    with Cons.prems(2) have "p \<in> set ps" by simp
    from Cons.IH [OF u(2) this] obtain v where "v \<le> u" "p = Settled v Fulfilled" by blast
    with u(1) have "v \<le> t" "p = Settled v Fulfilled" by simp_all
    then show ?thesis by blast
  qed
qed

lemma both_Rejected:
  "both p q = Settled t (Rejected e) \<Longrightarrow> p = Settled t (Rejected e) \<or> q = Settled t (Rejected e)"
  by (cases "(p, q)" rule: both.cases) (auto split: if_splits)

lemma Promise_all_Rejected_member:
  "Promise_all ps = Settled t (Rejected e) \<Longrightarrow> Settled t (Rejected e) \<in> set ps"
proof (induction ps)
  case Nil
  then show ?case by simp
next
  case (Cons q ps)
  from Cons.prems have "both q (Promise_all ps) = Settled t (Rejected e)" by simp
  from both_Rejected [OF this] Cons.IH show ?case by auto
qed

lemma both_Rejected_left:
  "\<exists>v e'. both (Settled u (Rejected e)) q = Settled v (Rejected e') \<and> v \<le> u
      \<and> (Settled v (Rejected e') = Settled u (Rejected e) \<or> Settled v (Rejected e') = q)"
  by (cases "(Settled u (Rejected e), q)" rule: both.cases) auto

lemma both_Rejected_right:
  "\<exists>v e'. both p (Settled u (Rejected e)) = Settled v (Rejected e') \<and> v \<le> u
      \<and> (Settled v (Rejected e') = p \<or> Settled v (Rejected e') = Settled u (Rejected e))"
  by (cases "(p, Settled u (Rejected e))" rule: both.cases) auto

lemma Promise_all_Rejected:
  "Settled u (Rejected e) \<in> set ps \<Longrightarrow>
     \<exists>v e'. Promise_all ps = Settled v (Rejected e') \<and> v \<le> u \<and> Settled v (Rejected e') \<in> set ps"
proof (induction ps)
  case Nil
  then show ?case by simp
next
  case (Cons q ps)
  show ?case
  proof (cases "Settled u (Rejected e) \<in> set ps")
    case True
    from Cons.IH [OF this] obtain v e' where v: "Promise_all ps = Settled v (Rejected e')"
      "v \<le> u" "Settled v (Rejected e') \<in> set ps" by blast
    from both_Rejected_right [of q v e'] obtain w e'' where
      w: "both q (Settled v (Rejected e')) = Settled w (Rejected e'')" "w \<le> v"
         "Settled w (Rejected e'') = q \<or> Settled w (Rejected e'') = Settled v (Rejected e')"
      by blast
    have "Promise_all (q # ps) = Settled w (Rejected e'')" using v(1) w(1) by simp
    moreover have "w \<le> u" using w(2) v(2) by simp
    moreover have "Settled w (Rejected e'') \<in> set (q # ps)" using w(3) v(3) by auto
    ultimately show ?thesis by blast
  next
    case False
    with Cons.prems have q: "q = Settled u (Rejected e)" by simp
    from both_Rejected_left [of u e "Promise_all ps"] obtain w e'' where
      w: "both (Settled u (Rejected e)) (Promise_all ps) = Settled w (Rejected e'')" "w \<le> u"
         "Settled w (Rejected e'') = Settled u (Rejected e) \<or> Settled w (Rejected e'') = Promise_all ps"
      by blast
    have in_ps: "Settled w (Rejected e'') = Promise_all ps \<Longrightarrow> Settled w (Rejected e'') \<in> set ps"
      using Promise_all_Rejected_member [of ps w e''] by simp
    have "Promise_all (q # ps) = Settled w (Rejected e'')" using q w(1) by simp
    moreover have "Settled w (Rejected e'') \<in> set (q # ps)" using w(3) q in_ps by auto
    ultimately show ?thesis using w(2) by blast
  qed
qed

subsection \<open>The paths through applyTx\<close>

lemma applyTx_cases:
  assumes "applyTx ap this tx h = (p, calls, h')"
  obtains (notx) "instanceof_Transaction h tx = None"
      "p = Settled 0 (Rejected (Thrown ''Can only apply transactions''))" "calls = []" "h' = h"
  | (nothis) "\<forall>M. deref h this \<noteq> Some (SnapshotManagerObj M)"
      "p = Settled 0 (Rejected TypeError)" "calls = []" "h' = h"
  | (noapply) T M e where "instanceof_Transaction h tx = Some T"
      "deref h this = Some (SnapshotManagerObj M)"
      "apply_loop ap T (snapshots M) h = (Some e, calls, h')" "p = Settled 0 (Rejected e)"
  | (noiter) T M where "instanceof_Transaction h tx = Some T"
      "deref h this = Some (SnapshotManagerObj M)"
      "apply_loop ap T (snapshots M) h = (None, calls, h')"
      "\<forall>N. deref h' (snapshotManager T) \<noteq> Some (SnapshotManagerObj N)"
      "p = Settled 0 (Rejected TypeError)"
  | (noadopt) T M N h1 e where "instanceof_Transaction h tx = Some T"
      "deref h this = Some (SnapshotManagerObj M)"
      "apply_loop ap T (snapshots M) h = (None, calls, h1)"
      "deref h1 (snapshotManager T) = Some (SnapshotManagerObj N)"
      "adopt_loop this (snapshots N) h1 = (Some e, h')" "p = Settled 0 (Rejected e)"
  | (adopted) T M N h1 where "instanceof_Transaction h tx = Some T"
      "deref h this = Some (SnapshotManagerObj M)"
      "apply_loop ap T (snapshots M) h = (None, calls, h1)"
      "deref h1 (snapshotManager T) = Some (SnapshotManagerObj N)"
      "adopt_loop this (snapshots N) h1 = (None, h')" "p = Promise_all (map snd calls)"
proof (cases "instanceof_Transaction h tx")
  case None
  with assms have "p = Settled 0 (Rejected (Thrown ''Can only apply transactions''))"
    "calls = []" "h' = h" by (simp_all add: applyTx_def)
  with None show ?thesis by (rule notx)
next
  case (Some T)
  note T = this
  show ?thesis
  proof (cases "\<exists>M. deref h this = Some (SnapshotManagerObj M)")
    case False
    then have 1: "\<forall>M. deref h this \<noteq> Some (SnapshotManagerObj M)" by simp
    then have "applyTx ap this tx h = (Settled 0 (Rejected TypeError), [], h)"
      by (simp add: applyTx_def T split: option.splits obj.splits)
    with assms have "p = Settled 0 (Rejected TypeError)" "calls = []" "h' = h" by simp_all
    with 1 show ?thesis by (rule nothis)
  next
    case True
    then obtain M where M: "deref h this = Some (SnapshotManagerObj M)" by blast
    obtain e c1 h1 where al: "apply_loop ap T (snapshots M) h = (e, c1, h1)"
      by (cases "apply_loop ap T (snapshots M) h")
    show ?thesis
    proof (cases e)
      case (Some err)
      with al have "applyTx ap this tx h = (Settled 0 (Rejected err), c1, h1)"
        by (simp add: applyTx_def T M)
      with assms have eq: "p = Settled 0 (Rejected err)" "c1 = calls" "h1 = h'" by simp_all
      from al Some eq have "apply_loop ap T (snapshots M) h = (Some err, calls, h')" by simp
      from T M this eq(1) show ?thesis by (rule noapply)
    next
      case None
      note e = this
      show ?thesis
      proof (cases "\<exists>N. deref h1 (snapshotManager T) = Some (SnapshotManagerObj N)")
        case False
        then have 1: "\<forall>N. deref h1 (snapshotManager T) \<noteq> Some (SnapshotManagerObj N)" by simp
        then have "applyTx ap this tx h = (Settled 0 (Rejected TypeError), c1, h1)"
          by (simp add: applyTx_def T M al e split: option.splits obj.splits)
        with assms have eq: "p = Settled 0 (Rejected TypeError)" "c1 = calls" "h1 = h'"
          by simp_all
        from al e eq have 2: "apply_loop ap T (snapshots M) h = (None, calls, h')" by simp
        from 1 eq have 3: "\<forall>N. deref h' (snapshotManager T) \<noteq> Some (SnapshotManagerObj N)"
          by simp
        from T M 2 3 eq(1) show ?thesis by (rule noiter)
      next
        case True
        then obtain N where N: "deref h1 (snapshotManager T) = Some (SnapshotManagerObj N)"
          by blast
        obtain e2 h2 where ad: "adopt_loop this (snapshots N) h1 = (e2, h2)"
          by (cases "adopt_loop this (snapshots N) h1")
        show ?thesis
        proof (cases e2)
          case None
          with ad have "applyTx ap this tx h = (Promise_all (map snd c1), c1, h2)"
            by (simp add: applyTx_def T M al e N)
          with assms have eq: "p = Promise_all (map snd c1)" "c1 = calls" "h2 = h'" by auto
          from al e eq have 2: "apply_loop ap T (snapshots M) h = (None, calls, h1)" by simp
          from ad None eq have 3: "adopt_loop this (snapshots N) h1 = (None, h')" by simp
          from eq have 4: "p = Promise_all (map snd calls)" by simp
          from T M 2 N 3 4 show ?thesis by (rule adopted)
        next
          case (Some err)
          with ad have "applyTx ap this tx h = (Settled 0 (Rejected err), c1, h2)"
            by (simp add: applyTx_def T M al e N)
          with assms have eq: "p = Settled 0 (Rejected err)" "c1 = calls" "h2 = h'" by simp_all
          from al e eq have 2: "apply_loop ap T (snapshots M) h = (None, calls, h1)" by simp
          from ad Some eq have 3: "adopt_loop this (snapshots N) h1 = (Some err, h')" by simp
          from T M 2 N 3 eq(1) show ?thesis by (rule noadopt)
        qed
      qed
    qed
  qed
qed

lemma registry_ok_iff:
  "registry_ok h r \<longleftrightarrow>
     (\<exists>M. deref h r = Some (SnapshotManagerObj M)) \<and> (\<forall>s\<in>set (registry h r). is_Snapshot h s)"
  by (auto simp: registry_ok_def registry_def list_all_iff split: option.splits obj.splits)

lemma registry_kind:
  "deref h' r = deref h r \<Longrightarrow> registry h' r = registry h r"
  by (simp add: registry_def)

text \<open>On a well-formed heap neither loop raises.\<close>

lemma applyTx_run:
  assumes T: "instanceof_Transaction h tx = Some T"
    and M: "registry_ok h this" and N: "registry_ok h (snapshotManager T)"
    and run: "applyTx ap this tx h = (p, calls, h')"
  obtains h1 where "apply_loop ap T (registry h this) h = (None, calls, h1)"
    "adopt_loop this (registry h (snapshotManager T)) h1 = (None, h')"
    "p = Promise_all (map snd calls)"
    "map fst calls = registry h this"
proof -
  from M obtain M0 where M0: "deref h this = Some (SnapshotManagerObj M0)"
    and Ms: "\<forall>s\<in>set (registry h this). is_Snapshot h s" by (auto simp: registry_ok_iff)
  from N obtain N0 where N0: "deref h (snapshotManager T) = Some (SnapshotManagerObj N0)"
    and Ns: "\<forall>s\<in>set (registry h (snapshotManager T)). is_Snapshot h s"
    by (auto simp: registry_ok_iff)
  have rM: "registry h this = snapshots M0" using M0 by (simp add: registry_def)
  have rN: "registry h (snapshotManager T) = snapshots N0" using N0 by (simp add: registry_def)
  obtain e c1 h1 where al: "apply_loop ap T (snapshots M0) h = (e, c1, h1)"
    by (cases "apply_loop ap T (snapshots M0) h")
  from apply_loop_calls [OF _ al] Ms rM have e: "e = None" and c1: "map fst c1 = snapshots M0"
    by simp_all
  have M1: "deref h1 this = Some (SnapshotManagerObj M0)"
    using apply_loop_frame [OF al M0] by simp
  have N1: "deref h1 (snapshotManager T) = Some (SnapshotManagerObj N0)"
    using apply_loop_frame [OF al N0] by simp
  have "\<forall>s\<in>set (snapshots N0). is_Snapshot h1 s"
    using Ns rN is_Snapshot_kinds [OF apply_loop_kinds [OF al]] by simp
  with adopt_loop_succeeds [of h1 this "snapshots N0"] M1
  obtain h2 where ad: "adopt_loop this (snapshots N0) h1 = (None, h2)" by blast
  have "applyTx ap this tx h = (Promise_all (map snd c1), c1, h2)"
    by (simp add: applyTx_def T M0 al e N1 ad)
  with run have eq: "p = Promise_all (map snd c1)" "c1 = calls" "h2 = h'" by auto
  show ?thesis
  proof (rule that [of h1])
    show "apply_loop ap T (registry h this) h = (None, calls, h1)" using al e eq rM by simp
    show "adopt_loop this (registry h (snapshotManager T)) h1 = (None, h')" using ad eq rN by simp
    show "p = Promise_all (map snd calls)" using eq by simp
    show "map fst calls = registry h this" using c1 eq rM by simp
  qed
qed

subsection \<open>What a call of applyTx leaves behind\<close>

lemma applyTx_adoption:
  assumes T: "instanceof_Transaction h tx = Some T"
    and M: "registry_ok h this" and N: "registry_ok h (snapshotManager T)"
    and run: "applyTx ap this tx h = (p, calls, h')"
  shows "\<forall>s\<in>set (registry h (snapshotManager T)). backend_of h' s = Some this"
    and "registry h' this = fold Set_add (registry h (snapshotManager T)) (registry h this)"
    and "registry h' (snapshotManager T) = registry h (snapshotManager T)"
proof -
  from T M N run obtain h1 where
    al: "apply_loop ap T (registry h this) h = (None, calls, h1)" and
    ad: "adopt_loop this (registry h (snapshotManager T)) h1 = (None, h')"
    by (rule applyTx_run)
  from M obtain M0 where M0: "deref h this = Some (SnapshotManagerObj M0)"
    by (auto simp: registry_ok_iff)
  from N obtain N0 where N0: "deref h (snapshotManager T) = Some (SnapshotManagerObj N0)"
    and Ns: "\<forall>s\<in>set (registry h (snapshotManager T)). is_Snapshot h s"
    by (auto simp: registry_ok_iff)
  have M1: "deref h1 this = deref h this"
    using apply_loop_frame [OF al M0] M0 by simp
  have N1: "deref h1 (snapshotManager T) = deref h (snapshotManager T)"
    using apply_loop_frame [OF al N0] N0 by simp
  show "\<forall>s\<in>set (registry h (snapshotManager T)). backend_of h' s = Some this"
  proof
    fix s assume s: "s \<in> set (registry h (snapshotManager T))"
    with Ns have "is_Snapshot h s" by simp
    then have "is_Snapshot h1 s" using is_Snapshot_kinds [OF apply_loop_kinds [OF al]] by simp
    then obtain S where "deref h1 s = Some (SnapshotObj S)" by (auto simp: is_Snapshot_iff)
    from adopt_loop_backend [OF ad s this] show "backend_of h' s = Some this"
      by (simp add: backend_of_def)
  qed
  show reg: "registry h' this = fold Set_add (registry h (snapshotManager T)) (registry h this)"
    using adopt_loop_registry [OF ad] registry_kind [OF M1] by simp
  show "registry h' (snapshotManager T) = registry h (snapshotManager T)"
  proof (cases "snapshotManager T = this")
    case True
    with reg show ?thesis by (simp add: fold_Set_add_members)
  next
    case False
    from N0 N1 have "deref h1 (snapshotManager T) = Some (SnapshotManagerObj N0)" by simp
    from adopt_loop_frame [OF ad this _ False] N0 have
      "deref h' (snapshotManager T) = deref h (snapshotManager T)" by simp
    then show ?thesis by (rule registry_kind)
  qed
qed

lemma applyTx_rejected:
  assumes run: "applyTx ap this tx h = (p, calls, h')"
    and rej: "(s, Settled u (Rejected e)) \<in> set calls"
  shows "\<exists>t e'. p = Settled t (Rejected e') \<and> t \<le> u"
  using run
proof (cases rule: applyTx_cases)
  case (adopted T M N h1)
  from rej have "Settled u (Rejected e) \<in> set (map snd calls)" by force
  from Promise_all_Rejected [OF this] adopted(6) show ?thesis by auto
qed simp_all

lemma applyTx_frame_store:
  assumes run: "applyTx ap this tx h = (p, calls, h')"
    and r: "deref h r = Some (StoreObj kv)"
  shows "deref h' r = Some (StoreObj kv)"
  using run
proof (cases rule: applyTx_cases)
  case notx
  with r show ?thesis by simp
next
  case nothis
  with r show ?thesis by simp
next
  case (noapply T M e)
  from apply_loop_frame [OF noapply(3) r] show ?thesis by simp
next
  case (noiter T M)
  from apply_loop_frame [OF noiter(3) r] show ?thesis by simp
next
  case (noadopt T M N h1 e)
  from noadopt(2) r have "r \<noteq> this" by auto
  moreover from apply_loop_frame [OF noadopt(3) r] have "deref h1 r = Some (StoreObj kv)" by simp
  ultimately show ?thesis using adopt_loop_frame [OF noadopt(5)] by simp
next
  case (adopted T M N h1)
  from adopted(2) r have "r \<noteq> this" by auto
  moreover from apply_loop_frame [OF adopted(3) r] have "deref h1 r = Some (StoreObj kv)" by simp
  ultimately show ?thesis using adopt_loop_frame [OF adopted(5)] by simp
qed

lemma applyTx_calls:
  assumes T: "instanceof_Transaction h tx = Some T" and M: "registry_ok h this"
    and run: "applyTx ap this tx h = (p, calls, h')"
  shows "map fst calls = registry h this"
proof -
  from M obtain M0 where M0: "deref h this = Some (SnapshotManagerObj M0)"
    and Ms: "\<forall>s\<in>set (registry h this). is_Snapshot h s" by (auto simp: registry_ok_iff)
  have rM: "registry h this = snapshots M0" using M0 by (simp add: registry_def)
  from run T M0 obtain e h1 where "apply_loop ap T (snapshots M0) h = (e, calls, h1)"
    by (cases rule: applyTx_cases) auto
  from apply_loop_calls [OF _ this] Ms rM show ?thesis by simp
qed

lemma applyTx_promises:
  assumes T: "instanceof_Transaction h tx = Some T" and M: "registry_ok h this"
    and d: "distinct (registry h this)"
    and run: "applyTx ap this tx h = (p, calls, h')"
    and c: "c \<in> set calls"
  shows "\<exists>S. deref h (fst c) = Some (SnapshotObj S) \<and> snd c = fst (ap (fst c) T S)"
proof -
  from M obtain M0 where M0: "deref h this = Some (SnapshotManagerObj M0)"
    by (auto simp: registry_ok_iff)
  have rM: "registry h this = snapshots M0" using M0 by (simp add: registry_def)
  from run T M0 obtain e h1 where "apply_loop ap T (snapshots M0) h = (e, calls, h1)"
    by (cases rule: applyTx_cases) auto
  from apply_loop_promises [OF _ this c] d rM show ?thesis by simp
qed

subsection \<open>The well-formedness that applyTx keeps\<close>

lemma applyTx_kinds:
  assumes "applyTx ap this tx h = (p, calls, h')"
  shows "map kind_of h' = map kind_of h"
  using assms
proof (cases rule: applyTx_cases)
  case (noapply T M e)
  then show ?thesis by (simp add: apply_loop_kinds)
next
  case (noiter T M)
  then show ?thesis by (simp add: apply_loop_kinds)
next
  case (noadopt T M N h1 e)
  from adopt_loop_kinds [OF noadopt(5)] apply_loop_kinds [OF noadopt(3)] show ?thesis by simp
next
  case (adopted T M N h1)
  from adopt_loop_kinds [OF adopted(5)] apply_loop_kinds [OF adopted(3)] show ?thesis by simp
qed simp_all

lemma applyTx_keeps_registry_ok:
  assumes T: "instanceof_Transaction h tx = Some T"
    and M: "registry_ok h this" and N: "registry_ok h (snapshotManager T)"
    and run: "applyTx ap this tx h = (p, calls, h')"
  shows "registry_ok h' this" and "registry_ok h' (snapshotManager T)"
    and "distinct (registry h this) \<Longrightarrow> distinct (registry h' this)"
proof -
  note ad = applyTx_adoption [OF T M N run]
  note k = applyTx_kinds [OF run]
  have man: "(\<exists>M. deref h' r = Some (SnapshotManagerObj M))"
    if "\<exists>M. deref h r = Some (SnapshotManagerObj M)" for r
  proof -
    from that kinds_deref [OF k, of r] have "map_option kind_of (deref h' r) = Some KManager"
      by auto
    then show ?thesis by (cases "deref h' r"; simp) (metis kind.distinct kind_of.elims)
  qed
  from M N have s: "\<forall>s\<in>set (registry h this) \<union> set (registry h (snapshotManager T)). is_Snapshot h' s"
    using is_Snapshot_kinds [OF k] by (auto simp: registry_ok_iff)
  show "registry_ok h' this"
    using M man [of this] s ad(2) by (auto simp: registry_ok_iff set_fold_Set_add)
  show "registry_ok h' (snapshotManager T)"
    using N man [of "snapshotManager T"] s ad(3) by (auto simp: registry_ok_iff)
  show "distinct (registry h this) \<Longrightarrow> distinct (registry h' this)"
    using ad(2) by (simp add: distinct_fold_Set_add)
qed

section \<open>The claims\<close>

text \<open>
  C1. \<^verbatim>\<open>applyTx(tx)\<close> assigns \<^verbatim>\<open>snapshot._backend = this\<close> to every snapshot of the
  transaction's registry (lemma \<open>applyTx_adoption\<close>), and \<open>this\<close> is the manager, the
  registry itself, not the store or transaction that owns it. In \<open>heap2\<close> the manager
  at 0 is the one the parent transaction at 1 keeps in \<^verbatim>\<open>_snapshotManager\<close>; applying the
  child transaction at 3 to it leaves the adopted snapshot 5 with the manager at 0 as
  its backend and not with the parent transaction at 1, the backend that the
  manager's own snapshot 4 was created with.
\<close>

theorem applyTx_backend_is_manager:
  "instanceof_Transaction heap2 (JSRef 1) = Some \<lparr>snapshotManager = 0, writes = []\<rparr> \<and>
   registry heap2 0 = [4] \<and> backend_of heap2 4 = Some 1 \<and>
   registry heap2 2 = [5] \<and> backend_of heap2 5 = Some 3 \<and>
   backend_of (snd (snd (applyTx (Snapshot_apply io_ok) 0 (JSRef 3) heap2))) 5 = Some 0 \<and>
   backend_of (snd (snd (applyTx (Snapshot_apply io_ok) 0 (JSRef 3) heap2))) 4 = Some 1 \<and>
   map_option kind_of (deref (snd (snd (applyTx (Snapshot_apply io_ok) 0 (JSRef 3) heap2))) 0) =
     Some KManager"
  by code_simp

text \<open>
  C2. When the capture of a registered snapshot fails during \<^verbatim>\<open>applyTx(tx)\<close>, the commit
  does not reach its store-mutation half: the promise of \<^verbatim>\<open>applyTx\<close>, which the commit
  awaits, is rejected, \<^verbatim>\<open>applyTx\<close> itself writes to no store, and every store of the heap
  holds after the commit exactly the entries it held before; none of the transaction's
  writes is applied.
\<close>

theorem commitTx_leaves_store_on_capture_failure:
  assumes "commitTx ap this store tx h = (p, calls, h')"
    and "(s, Settled u (Rejected e)) \<in> set calls"
    and "deref h r = Some (StoreObj kv)"
  shows "(\<exists>t e'. p = Settled t (Rejected e')) \<and> deref h' r = Some (StoreObj kv)
       \<and> applyTx ap this tx h = (p, calls, h')"
proof -
  obtain p1 c1 h1 where run: "applyTx ap this tx h = (p1, c1, h1)"
    by (cases "applyTx ap this tx h")
  have "p1 = p \<and> c1 = calls"
    using assms(1) run
    by (auto simp: commitTx_def split: promise.splits outcome.splits option.splits obj.splits)
  then have eq: "p1 = p" "c1 = calls" by simp_all
  from applyTx_rejected [OF run] assms(2) eq obtain t e' where p: "p = Settled t (Rejected e')"
    by blast
  with run eq have "commitTx ap this store tx h = (p, calls, h1)"
    by (simp add: commitTx_def)
  with assms(1) have "h1 = h'" by simp
  with run eq applyTx_frame_store [OF run assms(3)] p show ?thesis by simp
qed

theorem commitTx_leaves_store_on_capture_failure_witness:
  "deref heap0 3 = Some (StoreObj [(''A'', 1), (''B'', 2)]) \<and>
   fst (snd (commitTx (Snapshot_apply io_fail4) 0 3 (JSRef 2) heap0)) =
     [(4, Settled 2 (Rejected (CaptureFailure ''read failed'')))] \<and>
   fst (commitTx (Snapshot_apply io_fail4) 0 3 (JSRef 2) heap0) =
     Settled 2 (Rejected (CaptureFailure ''read failed'')) \<and>
   deref (snd (snd (commitTx (Snapshot_apply io_fail4) 0 3 (JSRef 2) heap0))) 3 =
     Some (StoreObj [(''A'', 1), (''B'', 2)]) \<and>
   deref (snd (snd (commitTx (Snapshot_apply io_ok) 0 3 (JSRef 2) heap0))) 3 =
     Some (StoreObj [(''A'', 9), (''B'', 2)])"
proof -
  let ?f = "Settled 2 (Rejected (CaptureFailure ''read failed''))"
  let ?run = "commitTx (Snapshot_apply io_fail4) 0 3 (JSRef 2) heap0"
  have st: "deref heap0 3 = Some (StoreObj [(''A'', 1), (''B'', 2)])" by code_simp
  have c: "fst (snd ?run) = [(4, ?f)]" by code_simp
  have p: "fst ?run = ?f" by code_simp
  have ok: "deref (snd (snd (commitTx (Snapshot_apply io_ok) 0 3 (JSRef 2) heap0))) 3 =
     Some (StoreObj [(''A'', 9), (''B'', 2)])" by code_simp
  have run: "?run = (fst ?run, fst (snd ?run), snd (snd ?run))" by simp
  have "(4, ?f) \<in> set (fst (snd ?run))" by (simp add: c)
  from commitTx_leaves_store_on_capture_failure [OF run this st]
  have "deref (snd (snd ?run)) 3 = Some (StoreObj [(''A'', 1), (''B'', 2)])" by simp
  with st c p ok show ?thesis by simp
qed

text \<open>
  C3. The snapshots that \<^verbatim>\<open>applyTx(tx)\<close> adopts, those it brings into this registry from
  the transaction's own registry, are applied the transaction zero times in that call:
  \<^verbatim>\<open>_apply(tx)\<close> is invoked on the snapshots that were members of this registry when the
  call started, in the order of the set, and on nothing else.
\<close>

theorem applyTx_applies_members_only:
  assumes "instanceof_Transaction h tx = Some T"
    and "registry_ok h this" and "registry_ok h (snapshotManager T)"
    and "applyTx ap this tx h = (p, calls, h')"
  shows "map fst calls = registry h this
       \<and> set (registry h' this) - set (registry h this) =
           set (registry h (snapshotManager T)) - set (registry h this)
       \<and> (\<forall>s\<in>set (registry h' this) - set (registry h this). count_list (map fst calls) s = 0)"
proof -
  from assms(1,2,4) have c: "map fst calls = registry h this" by (rule applyTx_calls)
  from applyTx_adoption(2) [OF assms]
  have "set (registry h' this) = set (registry h this) \<union> set (registry h (snapshotManager T))"
    by (simp add: set_fold_Set_add)
  with c show ?thesis by (auto simp: count_list_0_iff)
qed

theorem applyTx_applies_members_only_witness:
  "instanceof_Transaction heap0 (JSRef 2) =
     Some \<lparr>snapshotManager = 1, writes = [(''A'', Some 9, Some 1)]\<rparr> \<and>
   registry_ok heap0 0 \<and> registry_ok heap0 1 \<and> registry heap0 0 = [4] \<and> registry heap0 1 = [5] \<and>
   registry (snd (snd (applyTx (Snapshot_apply io_ok) 0 (JSRef 2) heap0))) 0 = [4, 5] \<and>
   map fst (fst (snd (applyTx (Snapshot_apply io_ok) 0 (JSRef 2) heap0))) = [4] \<and>
   count_list (map fst (fst (snd (applyTx (Snapshot_apply io_ok) 0 (JSRef 2) heap0)))) 5 = 0"
proof -
  let ?T = "\<lparr>snapshotManager = 1, writes = [(''A'', Some 9, Some 1)]\<rparr>"
  let ?run = "applyTx (Snapshot_apply io_ok) 0 (JSRef 2) heap0"
  have T: "instanceof_Transaction heap0 (JSRef 2) = Some ?T" by code_simp
  have M: "registry_ok heap0 0" by code_simp
  have N: "registry_ok heap0 (snapshotManager ?T)" by code_simp
  have r0: "registry heap0 0 = [4]" by code_simp
  have r1: "registry heap0 (snapshotManager ?T) = [5]" by code_simp
  have r': "registry (snd (snd ?run)) 0 = [4, 5]" by code_simp
  have run: "?run = (fst ?run, fst (snd ?run), snd (snd ?run))" by simp
  from applyTx_applies_members_only [OF T M N run] r0 r1 r'
  have "map fst (fst (snd ?run)) = [4]" "count_list (map fst (fst (snd ?run))) 5 = 0" by auto
  with T M N r0 r1 r' show ?thesis by simp
qed

text \<open>
  C4, as the code has it. After \<^verbatim>\<open>applyTx(tx)\<close> every snapshot of the transaction's own
  registry is a member of this registry, whose members are then those it had before and
  those of the transaction's registry. The transaction's registry is not touched: it
  still holds every snapshot it held before the call.
\<close>

theorem applyTx_adoption_registers:
  assumes "instanceof_Transaction h tx = Some T"
    and "registry_ok h this" and "registry_ok h (snapshotManager T)"
    and "applyTx ap this tx h = (p, calls, h')"
  shows "set (registry h' this) = set (registry h this) \<union> set (registry h (snapshotManager T))
       \<and> registry h' (snapshotManager T) = registry h (snapshotManager T)"
  using applyTx_adoption(2,3) [OF assms] by (simp add: set_fold_Set_add)

theorem applyTx_adoption_registers_witness:
  "instanceof_Transaction heap0 (JSRef 2) =
     Some \<lparr>snapshotManager = 1, writes = [(''A'', Some 9, Some 1)]\<rparr> \<and>
   registry_ok heap0 0 \<and> registry_ok heap0 1 \<and> registry heap0 0 = [4] \<and> registry heap0 1 = [5] \<and>
   set (registry (snd (snd (applyTx (Snapshot_apply io_ok) 0 (JSRef 2) heap0))) 0) = {4, 5} \<and>
   registry (snd (snd (applyTx (Snapshot_apply io_ok) 0 (JSRef 2) heap0))) 1 = [5]"
proof -
  let ?T = "\<lparr>snapshotManager = 1, writes = [(''A'', Some 9, Some 1)]\<rparr>"
  have T: "instanceof_Transaction heap0 (JSRef 2) = Some ?T" by code_simp
  have M: "registry_ok heap0 0" by code_simp
  have N: "registry_ok heap0 (snapshotManager ?T)" by code_simp
  have r0: "registry heap0 0 = [4]" by code_simp
  have r: "registry heap0 (snapshotManager ?T) = [5]" by code_simp
  obtain p calls h' where run: "applyTx (Snapshot_apply io_ok) 0 (JSRef 2) heap0 = (p, calls, h')"
    by (cases "applyTx (Snapshot_apply io_ok) 0 (JSRef 2) heap0")
  from applyTx_adoption_registers [OF T M N run] r r0
  have "set (registry h' 0) = {4, 5}" "registry h' 1 = [5]" by auto
  with T M N r r0 run show ?thesis by simp
qed

text \<open>
  The claim C4 itself fails: the snapshot 5 of the transaction's registry (the manager
  at 1) is still a member of that registry after the transaction has been applied.
\<close>

theorem applyTx_keeps_tx_registry_counterexample:
  "5 \<in> set (registry heap0 1) \<and>
   5 \<in> set (registry (snd (snd (applyTx (Snapshot_apply io_ok) 0 (JSRef 2) heap0))) 0) \<and>
   5 \<in> set (registry (snd (snd (applyTx (Snapshot_apply io_ok) 0 (JSRef 2) heap0))) 1)"
  by code_simp

text \<open>
  C5, as the code has it. For a transaction \<open>tx\<close>, \<^verbatim>\<open>applyTx(tx)\<close> invokes \<^verbatim>\<open>_apply(tx)\<close>
  once on every snapshot registered in this registry when the call starts, in the order
  of the set, each on the snapshot as it was, and returns \<^verbatim>\<open>Promise.all\<close> of the promises
  these invocations returned. That promise is fulfilled only after every one of them is
  fulfilled: fulfilled at time \<open>t\<close>, each capture was fulfilled at a time up to \<open>t\<close>.
  It is rejected at the time of the earliest rejection among them, with that capture's
  reason, whether or not the other captures have finished.
\<close>

theorem applyTx_fans_out_and_in:
  assumes "instanceof_Transaction h tx = Some T"
    and "registry_ok h this" and "registry_ok h (snapshotManager T)"
    and "distinct (registry h this)"
    and "applyTx ap this tx h = (p, calls, h')"
  shows "map fst calls = registry h this
       \<and> (\<forall>c\<in>set calls. \<exists>S. deref h (fst c) = Some (SnapshotObj S) \<and> snd c = fst (ap (fst c) T S))
       \<and> p = Promise_all (map snd calls)
       \<and> (\<forall>t. p = Settled t Fulfilled \<longrightarrow> (\<forall>c\<in>set calls. \<exists>u\<le>t. snd c = Settled u Fulfilled))
       \<and> (\<forall>t e. p = Settled t (Rejected e) \<longrightarrow>
             (\<exists>c\<in>set calls. snd c = Settled t (Rejected e))
           \<and> (\<forall>c\<in>set calls. \<forall>u f. snd c = Settled u (Rejected f) \<longrightarrow> t \<le> u))"
proof (intro conjI)
  show "map fst calls = registry h this" using assms(1,2,5) by (rule applyTx_calls)
  show "\<forall>c\<in>set calls. \<exists>S. deref h (fst c) = Some (SnapshotObj S) \<and> snd c = fst (ap (fst c) T S)"
    using applyTx_promises [OF assms(1,2,4,5)] by blast
  from assms(1,2,3,5) show p: "p = Promise_all (map snd calls)" by (rule applyTx_run)
  show "\<forall>t. p = Settled t Fulfilled \<longrightarrow> (\<forall>c\<in>set calls. \<exists>u\<le>t. snd c = Settled u Fulfilled)"
  proof (intro allI impI ballI)
    fix t c assume "p = Settled t Fulfilled" and c: "c \<in> set calls"
    with p have "Promise_all (map snd calls) = Settled t Fulfilled" by simp
    moreover from c have "snd c \<in> set (map snd calls)" by simp
    ultimately show "\<exists>u\<le>t. snd c = Settled u Fulfilled" by (rule Promise_all_Fulfilled)
  qed
  show "\<forall>t e. p = Settled t (Rejected e) \<longrightarrow>
             (\<exists>c\<in>set calls. snd c = Settled t (Rejected e))
           \<and> (\<forall>c\<in>set calls. \<forall>u f. snd c = Settled u (Rejected f) \<longrightarrow> t \<le> u)"
  proof (intro allI impI conjI ballI)
    fix t e assume r: "p = Settled t (Rejected e)"
    with p have "Promise_all (map snd calls) = Settled t (Rejected e)" by simp
    from Promise_all_Rejected_member [OF this]
    show "\<exists>c\<in>set calls. snd c = Settled t (Rejected e)" by force
    fix c u f assume "c \<in> set calls" and "snd c = Settled u (Rejected f)"
    then have "Settled u (Rejected f) \<in> set (map snd calls)" by force
    from Promise_all_Rejected [OF this] p r show "t \<le> u" by auto
  qed
qed

theorem applyTx_fans_out_and_in_witness:
  "instanceof_Transaction heap1 (JSRef 2) =
     Some \<lparr>snapshotManager = 1, writes = [(''A'', Some 9, Some 1)]\<rparr> \<and>
   registry_ok heap1 0 \<and> registry_ok heap1 1 \<and> registry heap1 0 = [4, 5] \<and>
   fst (applyTx (Snapshot_apply io_slow5) 0 (JSRef 2) heap1) = Settled 3 Fulfilled \<and>
   fst (snd (applyTx (Snapshot_apply io_slow5) 0 (JSRef 2) heap1)) =
     [(4, Settled 1 Fulfilled), (5, Settled 3 Fulfilled)]"
proof -
  let ?T = "\<lparr>snapshotManager = 1, writes = [(''A'', Some 9, Some 1)]\<rparr>"
  let ?run = "applyTx (Snapshot_apply io_slow5) 0 (JSRef 2) heap1"
  have T: "instanceof_Transaction heap1 (JSRef 2) = Some ?T" by code_simp
  have M: "registry_ok heap1 0" by code_simp
  have N: "registry_ok heap1 (snapshotManager ?T)" by code_simp
  have r: "registry heap1 0 = [4, 5]" by code_simp
  then have d: "distinct (registry heap1 0)" by simp
  have c: "fst (snd ?run) = [(4, Settled 1 Fulfilled), (5, Settled 3 Fulfilled)]" by code_simp
  have run: "?run = (fst ?run, fst (snd ?run), snd (snd ?run))" by simp
  from applyTx_fans_out_and_in [OF T M N d run]
  have "fst ?run = Promise_all (map snd (fst (snd ?run)))" by blast
  with c have "fst ?run = Settled 3 Fulfilled" by simp
  with T M N r c show ?thesis by simp
qed

text \<open>
  The claim C5 itself fails when a capture rejects: with the capture of snapshot 4
  rejecting at time 1 and that of snapshot 5 finishing at time 3, the promise of
  \<^verbatim>\<open>applyTx\<close> settles at time 1, before the capture of 5 has finished.
\<close>

theorem applyTx_settles_before_captures_counterexample:
  "fst (snd (applyTx (Snapshot_apply io_early4) 0 (JSRef 2) heap1)) =
     [(4, Settled 1 (Rejected (CaptureFailure ''read failed''))), (5, Settled 3 Fulfilled)] \<and>
   fst (applyTx (Snapshot_apply io_early4) 0 (JSRef 2) heap1) =
     Settled 1 (Rejected (CaptureFailure ''read failed''))"
  by code_simp

text \<open>
  C6, as the code has it. When the capture of a registered snapshot rejects, the promise
  of \<^verbatim>\<open>applyTx(tx)\<close> is rejected, so no success, partial or full, is reported. The caller
  gets one failure: the reason of the capture that rejected first, at the time of that
  rejection, which is no later than any rejection among the captures. The reasons of
  the other failing captures are not part of it.
\<close>

theorem applyTx_surfaces_capture_failure:
  assumes "instanceof_Transaction h tx = Some T"
    and "registry_ok h this" and "registry_ok h (snapshotManager T)"
    and "applyTx ap this tx h = (p, calls, h')"
    and "(s, Settled u (Rejected e)) \<in> set calls"
  shows "\<exists>t e' s'. p = Settled t (Rejected e') \<and> t \<le> u
           \<and> (s', Settled t (Rejected e')) \<in> set calls
           \<and> (\<forall>c\<in>set calls. \<forall>v f. snd c = Settled v (Rejected f) \<longrightarrow> t \<le> v)"
proof -
  from assms(1-4) have p: "p = Promise_all (map snd calls)" by (rule applyTx_run)
  from assms(5) have "Settled u (Rejected e) \<in> set (map snd calls)" by force
  from Promise_all_Rejected [OF this] p obtain t e' where
    t: "p = Settled t (Rejected e')" "t \<le> u" "Settled t (Rejected e') \<in> set (map snd calls)"
    by auto
  from t(3) obtain s' where s': "(s', Settled t (Rejected e')) \<in> set calls" by auto
  have "\<forall>c\<in>set calls. \<forall>v f. snd c = Settled v (Rejected f) \<longrightarrow> t \<le> v"
  proof (intro ballI allI impI)
    fix c v f assume "c \<in> set calls" and "snd c = Settled v (Rejected f)"
    then have "Settled v (Rejected f) \<in> set (map snd calls)" by force
    from Promise_all_Rejected [OF this] p t(1) show "t \<le> v" by auto
  qed
  with t(1,2) s' show ?thesis by blast
qed

theorem applyTx_surfaces_capture_failure_witness:
  "instanceof_Transaction heap1 (JSRef 2) =
     Some \<lparr>snapshotManager = 1, writes = [(''A'', Some 9, Some 1)]\<rparr> \<and>
   registry_ok heap1 0 \<and> registry_ok heap1 1 \<and>
   fst (snd (applyTx (Snapshot_apply io_fail4) 0 (JSRef 2) heap1)) =
     [(4, Settled 2 (Rejected (CaptureFailure ''read failed''))), (5, Settled 1 Fulfilled)] \<and>
   fst (applyTx (Snapshot_apply io_fail4) 0 (JSRef 2) heap1) =
     Settled 2 (Rejected (CaptureFailure ''read failed''))"
proof -
  let ?T = "\<lparr>snapshotManager = 1, writes = [(''A'', Some 9, Some 1)]\<rparr>"
  let ?f = "Settled 2 (Rejected (CaptureFailure ''read failed''))"
  let ?run = "applyTx (Snapshot_apply io_fail4) 0 (JSRef 2) heap1"
  have T: "instanceof_Transaction heap1 (JSRef 2) = Some ?T" by code_simp
  have M: "registry_ok heap1 0" by code_simp
  have N: "registry_ok heap1 (snapshotManager ?T)" by code_simp
  have c: "fst (snd ?run) = [(4, ?f), (5, Settled 1 Fulfilled)]" by code_simp
  have run: "?run = (fst ?run, fst (snd ?run), snd (snd ?run))" by simp
  have "(4, ?f) \<in> set (fst (snd ?run))" by (simp add: c)
  from applyTx_surfaces_capture_failure [OF T M N run this] c
  have "fst ?run = ?f" by auto
  with T M N c show ?thesis by simp
qed

text \<open>
  The claim C6 itself fails when two captures reject: the capture of snapshot 4 rejects
  at time 2 with \<open>''read failed''\<close> and that of snapshot 5 at time 1 with
  \<open>''disk full''\<close>; the promise of \<^verbatim>\<open>applyTx\<close> carries the reason of 5 alone, and the
  failure of 4 is nowhere in what the caller gets.
\<close>

theorem applyTx_drops_later_failure_counterexample:
  "fst (snd (applyTx (Snapshot_apply io_fail_both) 0 (JSRef 2) heap1)) =
     [(4, Settled 2 (Rejected (CaptureFailure ''read failed''))),
      (5, Settled 1 (Rejected (CaptureFailure ''disk full'')))] \<and>
   fst (applyTx (Snapshot_apply io_fail_both) 0 (JSRef 2) heap1) =
     Settled 1 (Rejected (CaptureFailure ''disk full''))"
  by code_simp

text \<open>
  C7. For every value \<open>tx\<close> that is not a transaction, \<^verbatim>\<open>applyTx(tx)\<close> fails with the
  invalid-argument error of the method, the thrown string \<^verbatim>\<open>'Can only apply transactions'\<close>;
  in that case \<^verbatim>\<open>_apply\<close> is invoked on no snapshot and the heap, with it the set of
  registered snapshots, is the one before the call.
\<close>

theorem applyTx_rejects_non_transaction:
  "instanceof_Transaction h tx = None \<Longrightarrow>
     applyTx ap this tx h =
       (Settled 0 (Rejected (Thrown ''Can only apply transactions'')), [], h)"
  by (simp add: applyTx_def)

theorem applyTx_rejects_non_transaction_witness:
  "instanceof_Transaction heap0 (JSRef 3) = None \<and>
   applyTx (Snapshot_apply io_fail4) 0 (JSRef 3) heap0 =
     (Settled 0 (Rejected (Thrown ''Can only apply transactions'')), [], heap0)"
proof -
  have h: "instanceof_Transaction heap0 (JSRef 3) = None" by code_simp
  show ?thesis using h applyTx_rejects_non_transaction [OF h] by simp
qed

text \<open>
  C8. \<^verbatim>\<open>abortSnapshot(s)\<close> removes \<open>s\<close> from the registry if it is there and returns
  whether it was there. Called twice in a row on a registered \<open>s\<close> it returns true, then
  false; it does not throw, and the second call leaves the heap, so the registry, as the
  first call left it.
\<close>

theorem abortSnapshot_idempotent:
  assumes "deref h this = Some (SnapshotManagerObj M)"
  shows "\<exists>h1. abortSnapshot this s h = Inr (s \<in> set (registry h this), h1)
           \<and> registry h1 this = removeAll s (registry h this)
           \<and> (s \<in> set (registry h this) \<longrightarrow> abortSnapshot this s h = Inr (True, h1))
           \<and> abortSnapshot this s h1 = Inr (False, h1)"
proof -
  let ?M1 = "M\<lparr>snapshots := removeAll s (snapshots M)\<rparr>"
  let ?h1 = "h[this := SnapshotManagerObj ?M1]"
  have len: "this < length h" using assms by (rule deref_Some_length)
  have r: "registry h this = snapshots M" using assms by (simp add: registry_def)
  have 1: "abortSnapshot this s h = Inr (s \<in> set (registry h this), ?h1)"
    using assms r by (simp add: abortSnapshot_def Set_delete_def)
  have d1: "deref ?h1 this = Some (SnapshotManagerObj ?M1)"
    using len by (simp add: deref_update)
  then have 2: "registry ?h1 this = removeAll s (registry h this)"
    using r by (simp add: registry_def)
  have "?h1[this := SnapshotManagerObj (?M1\<lparr>snapshots := removeAll s (snapshots ?M1)\<rparr>)] = ?h1"
    by simp
  then have 3: "abortSnapshot this s ?h1 = Inr (False, ?h1)"
    using d1 by (simp add: abortSnapshot_def Set_delete_def)
  from 1 2 3 show ?thesis by auto
qed

theorem abortSnapshot_idempotent_witness:
  "deref heap0 0 = Some (SnapshotManagerObj \<lparr>snapshots = [4]\<rparr>) \<and>
   abortSnapshot 0 4 heap0 = Inr (True, heap0[0 := SnapshotManagerObj \<lparr>snapshots = []\<rparr>]) \<and>
   abortSnapshot 0 4 (heap0[0 := SnapshotManagerObj \<lparr>snapshots = []\<rparr>]) =
     Inr (False, heap0[0 := SnapshotManagerObj \<lparr>snapshots = []\<rparr>])"
proof -
  have h: "deref heap0 0 = Some (SnapshotManagerObj \<lparr>snapshots = [4]\<rparr>)" by code_simp
  have r: "registry heap0 0 = [4]" by code_simp
  from abortSnapshot_idempotent [OF h, of 4] r obtain h1 where
    1: "abortSnapshot 0 4 heap0 = Inr (True, h1)" and 2: "abortSnapshot 0 4 h1 = Inr (False, h1)"
    by auto
  have "abortSnapshot 0 4 heap0 = Inr (True, heap0[0 := SnapshotManagerObj \<lparr>snapshots = []\<rparr>])"
    by code_simp
  with 1 have "h1 = heap0[0 := SnapshotManagerObj \<lparr>snapshots = []\<rparr>]" by simp
  with h 1 2 show ?thesis by simp
qed

text \<open>
  C9. When a capture of a registered snapshot rejects, so that the promise of
  \<^verbatim>\<open>applyTx(tx)\<close> is rejected, the adoption has taken place all the same: the heap the
  call leaves has every snapshot of the transaction's registry in this registry, with
  \<open>this\<close> as its backend.
\<close>

theorem applyTx_adopts_despite_rejection:
  assumes "instanceof_Transaction h tx = Some T"
    and "registry_ok h this" and "registry_ok h (snapshotManager T)"
    and "applyTx ap this tx h = (p, calls, h')"
    and "(s0, Settled u (Rejected e)) \<in> set calls"
  shows "(\<exists>t e'. p = Settled t (Rejected e'))
       \<and> (\<forall>s\<in>set (registry h (snapshotManager T)).
             s \<in> set (registry h' this) \<and> backend_of h' s = Some this)"
proof -
  from applyTx_rejected [OF assms(4,5)] have "\<exists>t e'. p = Settled t (Rejected e')" by blast
  moreover from applyTx_adoption(2) [OF assms(1-4)]
  have "set (registry h (snapshotManager T)) \<subseteq> set (registry h' this)"
    by (simp add: set_fold_Set_add)
  moreover note applyTx_adoption(1) [OF assms(1-4)]
  ultimately show ?thesis by blast
qed

theorem applyTx_adopts_despite_rejection_witness:
  "instanceof_Transaction heap0 (JSRef 2) =
     Some \<lparr>snapshotManager = 1, writes = [(''A'', Some 9, Some 1)]\<rparr> \<and>
   registry_ok heap0 0 \<and> registry_ok heap0 1 \<and> registry heap0 1 = [5] \<and>
   fst (applyTx (Snapshot_apply io_fail4) 0 (JSRef 2) heap0) =
     Settled 2 (Rejected (CaptureFailure ''read failed'')) \<and>
   5 \<in> set (registry (snd (snd (applyTx (Snapshot_apply io_fail4) 0 (JSRef 2) heap0))) 0) \<and>
   backend_of (snd (snd (applyTx (Snapshot_apply io_fail4) 0 (JSRef 2) heap0))) 5 = Some 0"
proof -
  let ?T = "\<lparr>snapshotManager = 1, writes = [(''A'', Some 9, Some 1)]\<rparr>"
  let ?f = "Settled 2 (Rejected (CaptureFailure ''read failed''))"
  have T: "instanceof_Transaction heap0 (JSRef 2) = Some ?T" by code_simp
  have M: "registry_ok heap0 0" by code_simp
  have N: "registry_ok heap0 (snapshotManager ?T)" by code_simp
  have r: "registry heap0 (snapshotManager ?T) = [5]" by code_simp
  have p: "fst (applyTx (Snapshot_apply io_fail4) 0 (JSRef 2) heap0) = ?f" by code_simp
  have c: "fst (snd (applyTx (Snapshot_apply io_fail4) 0 (JSRef 2) heap0)) = [(4, ?f)]"
    by code_simp
  obtain h' where run: "applyTx (Snapshot_apply io_fail4) 0 (JSRef 2) heap0 = (?f, [(4, ?f)], h')"
    using p c by (cases "applyTx (Snapshot_apply io_fail4) 0 (JSRef 2) heap0") auto
  have "(4, ?f) \<in> set [(4, ?f)]" by simp
  from applyTx_adopts_despite_rejection [OF T M N run this] r
  have "5 \<in> set (registry h' 0)" "backend_of h' 5 = Some 0" by auto
  with T M N r run show ?thesis by simp
qed

text \<open>
  C10. \<^verbatim>\<open>abortSnapshot(s)\<close> changes the membership of \<open>s\<close> in the registry and nothing
  else: every object but the manager, so every snapshot with its diff and its backend, is
  as before, and any other snapshot is registered after the call exactly if it was before.
  \<^verbatim>\<open>createSnapshot\<close> on a registry whose members are snapshots of the heap appends exactly
  the new snapshot, which no reference pointed to before, and leaves every object that
  existed before, the manager aside, as it was.
\<close>

theorem abort_create_frame:
  assumes M: "deref h this = Some (SnapshotManagerObj M)"
  shows "(\<exists>h1. abortSnapshot this s h = Inr (s \<in> set (registry h this), h1)
            \<and> length h1 = length h
            \<and> (\<forall>r. r \<noteq> this \<longrightarrow> deref h1 r = deref h r)
            \<and> (\<forall>s'. s' \<noteq> s \<longrightarrow> (s' \<in> set (registry h1 this) \<longleftrightarrow> s' \<in> set (registry h this))))
       \<and> (registry_ok h this \<longrightarrow>
            (\<exists>h2. createSnapshot this objStore bknd h = Inr (length h, h2)
               \<and> deref h (length h) = None
               \<and> deref h2 (length h) =
                   Some (SnapshotObj \<lparr>objectStore = objStore, backend = bknd, diff = []\<rparr>)
               \<and> registry h2 this = registry h this @ [length h]
               \<and> length h2 = Suc (length h)
               \<and> (\<forall>r. r \<noteq> this \<longrightarrow> r < length h \<longrightarrow> deref h2 r = deref h r)))"
proof (intro conjI impI)
  have len: "this < length h" using M by (rule deref_Some_length)
  have r: "registry h this = snapshots M" using M by (simp add: registry_def)
  let ?h1 = "h[this := SnapshotManagerObj (M\<lparr>snapshots := removeAll s (snapshots M)\<rparr>)]"
  have 1: "abortSnapshot this s h = Inr (s \<in> set (registry h this), ?h1)"
    using M r by (simp add: abortSnapshot_def Set_delete_def)
  have 2: "\<forall>r. r \<noteq> this \<longrightarrow> deref ?h1 r = deref h r" by (simp add: deref_update)
  have "registry ?h1 this = removeAll s (registry h this)"
    using len r by (simp add: registry_def deref_update)
  then have 3: "\<forall>s'. s' \<noteq> s \<longrightarrow> (s' \<in> set (registry ?h1 this) \<longleftrightarrow> s' \<in> set (registry h this))"
    by simp
  from 1 2 3 show "\<exists>h1. abortSnapshot this s h = Inr (s \<in> set (registry h this), h1)
            \<and> length h1 = length h
            \<and> (\<forall>r. r \<noteq> this \<longrightarrow> deref h1 r = deref h r)
            \<and> (\<forall>s'. s' \<noteq> s \<longrightarrow> (s' \<in> set (registry h1 this) \<longleftrightarrow> s' \<in> set (registry h this)))"
    by (intro exI [of _ ?h1]) simp
next
  assume ok: "registry_ok h this"
  have len: "this < length h" using M by (rule deref_Some_length)
  have r: "registry h this = snapshots M" using M by (simp add: registry_def)
  let ?S = "SnapshotObj \<lparr>objectStore = objStore, backend = bknd, diff = []\<rparr>"
  let ?h2 = "(h @ [?S])[this := SnapshotManagerObj (M\<lparr>snapshots := snapshots M @ [length h]\<rparr>)]"
  from ok have "\<forall>x\<in>set (snapshots M). is_Snapshot h x" using r by (simp add: registry_ok_iff)
  then have "\<forall>x\<in>set (snapshots M). x < length h"
    by (auto simp: is_Snapshot_iff dest: deref_Some_length)
  then have fresh: "length h \<notin> set (snapshots M)" by auto
  have M1: "deref (h @ [?S]) this = Some (SnapshotManagerObj M)"
    using M len by (simp add: deref_def nth_append)
  have 1: "createSnapshot this objStore bknd h = Inr (length h, ?h2)"
    using M1 fresh by (simp add: createSnapshot_def Let_def Set_add_def)
  have 2: "deref ?h2 (length h) = Some ?S"
    using len by (simp add: deref_def)
  have 3: "registry ?h2 this = registry h this @ [length h]"
    using len r by (simp add: registry_def deref_def)
  have 4: "\<forall>r. r \<noteq> this \<longrightarrow> r < length h \<longrightarrow> deref ?h2 r = deref h r"
    by (simp add: deref_def nth_append)
  have 5: "deref h (length h) = None" by (simp add: deref_def)
  from 1 2 3 4 5 show "\<exists>h2. createSnapshot this objStore bknd h = Inr (length h, h2)
               \<and> deref h (length h) = None
               \<and> deref h2 (length h) = Some ?S
               \<and> registry h2 this = registry h this @ [length h]
               \<and> length h2 = Suc (length h)
               \<and> (\<forall>r. r \<noteq> this \<longrightarrow> r < length h \<longrightarrow> deref h2 r = deref h r)"
    by (intro exI [of _ ?h2]) simp
qed

theorem abort_create_frame_witness:
  "deref heap0 0 = Some (SnapshotManagerObj \<lparr>snapshots = [4]\<rparr>) \<and> registry_ok heap0 0 \<and>
   abortSnapshot 0 4 heap0 = Inr (True, heap0[0 := SnapshotManagerObj \<lparr>snapshots = []\<rparr>]) \<and>
   deref (heap0[0 := SnapshotManagerObj \<lparr>snapshots = []\<rparr>]) 5 = deref heap0 5 \<and>
   createSnapshot 0 3 3 heap0 =
     Inr (6, (heap0 @ [SnapshotObj \<lparr>objectStore = 3, backend = 3, diff = []\<rparr>])
               [0 := SnapshotManagerObj \<lparr>snapshots = [4, 6]\<rparr>]) \<and>
   deref ((heap0 @ [SnapshotObj \<lparr>objectStore = 3, backend = 3, diff = []\<rparr>])
               [0 := SnapshotManagerObj \<lparr>snapshots = [4, 6]\<rparr>]) 4 = deref heap0 4"
proof -
  have h: "deref heap0 0 = Some (SnapshotManagerObj \<lparr>snapshots = [4]\<rparr>)" by code_simp
  have ok: "registry_ok heap0 0" by code_simp
  have a: "abortSnapshot 0 4 heap0 = Inr (True, heap0[0 := SnapshotManagerObj \<lparr>snapshots = []\<rparr>])"
    by code_simp
  have c: "createSnapshot 0 3 3 heap0 =
     Inr (6, (heap0 @ [SnapshotObj \<lparr>objectStore = 3, backend = 3, diff = []\<rparr>])
               [0 := SnapshotManagerObj \<lparr>snapshots = [4, 6]\<rparr>])"
    by code_simp
  have l: "length heap0 = 6" by (simp add: heap0_def)
  from abort_create_frame [OF h, of 4 3 3] ok a c l
  have "deref (heap0[0 := SnapshotManagerObj \<lparr>snapshots = []\<rparr>]) 5 = deref heap0 5"
    and "deref ((heap0 @ [SnapshotObj \<lparr>objectStore = 3, backend = 3, diff = []\<rparr>])
               [0 := SnapshotManagerObj \<lparr>snapshots = [4, 6]\<rparr>]) 4 = deref heap0 4"
    by auto
  with h ok a c show ?thesis by simp
qed

end
